theory Spec2Isabelle
  imports Main "HOL-Library.Word"
begin

section \<open>Data model of DeltaTransformer.js\<close>

text \<open>
  A path is a string, a module id a number.  The flow types \<open>DeltaEntryType\<close>,
  \<open>DeltaEntry\<close>, \<open>DeltaEntries\<close> and \<open>DeltaTransformResponse\<close> are taken as they are
  declared; a source-map segment tuple is a few numbers and an optional name.
\<close>

type_synonym path = string

type_synonym MetroSourceMapSegmentTuple = "nat list \<times> string option"

datatype DeltaEntryType = Asset | Module | Script | Comment | Require

record DeltaEntry =
  entry_code :: string
  entry_id :: nat
  entry_map :: "MetroSourceMapSegmentTuple list"
  entry_name :: string
  entry_path :: path
  entry_source :: string
  entry_type :: DeltaEntryType

text \<open>
  A JavaScript \<open>Map\<close> keeps its keys in insertion order: \<open>set\<close> on a key that is
  present replaces the value where the key stands, on a new key it appends.
  \<open>new Map(pairs)\<close> sets the pairs from left to right.  A \<open>null\<close> entry is \<open>None\<close>.
\<close>

fun Map_set :: "('k \<times> 'v) list \<Rightarrow> 'k \<Rightarrow> 'v \<Rightarrow> ('k \<times> 'v) list" where
  "Map_set [] k v = [(k, v)]"
| "Map_set ((k', v') # m) k v =
     (if k' = k then (k, v) # m else (k', v') # Map_set m k v)"

definition Map_new :: "('k \<times> 'v) list \<Rightarrow> ('k \<times> 'v) list" where
  "Map_new pairs = fold (\<lambda>(k, v) m. Map_set m k v) pairs []"

type_synonym DeltaEntries = "(nat \<times> DeltaEntry option) list"

record DeltaTransformResponse =
  resp_id :: string
  resp_pre :: DeltaEntries
  resp_post :: DeltaEntries
  resp_delta :: DeltaEntries
  resp_reset :: bool

text \<open>
  \<open>DependencyEdge\<close> (declared in \<open>./traverseDependencies\<close>) with the fields this file
  reads: the path, the map from dependency name to dependency path, the inverse
  dependencies and the output.  \<open>DependencyEdges\<close> is a \<open>Map\<close> from path to edge.
\<close>

record Output =
  output_code :: string
  output_map :: "MetroSourceMapSegmentTuple list"
  output_source :: string
  output_type :: DeltaEntryType

record DependencyEdge =
  edge_dependencies :: "(string \<times> path) list"
  edge_inverseDependencies :: "path list"
  edge_path :: path
  edge_output :: Output

type_synonym DependencyEdges = "(path \<times> DependencyEdge) list"

datatype error = Error string

section \<open>Transitive dependencies\<close>

text \<open>
  \<open>_getDeps(path, edges, deps)\<close>: the set \<open>deps\<close> is shared by all the recursive calls
  and mutated in place, so the model threads it through; a JavaScript \<open>Set\<close> is a list
  in insertion order.  \<open>getDeps_for\<close> is the \<open>for (const [, dependencyPath] of
  edge.dependencies)\<close> loop.
\<close>

function getDeps :: "path \<Rightarrow> DependencyEdges \<Rightarrow> path list \<Rightarrow> path list"
  and getDeps_for :: "path list \<Rightarrow> DependencyEdges \<Rightarrow> path list \<Rightarrow> path list"
where
  "getDeps p edges deps =
     (if p \<in> set deps then deps
      else case map_of edges p of
             None \<Rightarrow> deps
           | Some edge \<Rightarrow> getDeps_for (map snd (edge_dependencies edge)) edges (deps @ [p]))"
| "getDeps_for [] edges deps = deps"
| "getDeps_for (d # ds) edges deps = getDeps_for ds edges (getDeps d edges deps)"
  by pat_completeness auto

lemma getDeps_dom_mono:
  "getDeps_getDeps_for_dom (Inl (p, edges, deps)) \<Longrightarrow> set deps \<subseteq> set (getDeps p edges deps)"
  "getDeps_getDeps_for_dom (Inr (ds, edges, deps)) \<Longrightarrow> set deps \<subseteq> set (getDeps_for ds edges deps)"
proof (induction p edges deps and ds edges deps rule: getDeps_getDeps_for.pinduct)
  case (1 p edges deps)
  then show ?case
    by (auto simp: getDeps.psimps split: option.splits)
next
  case (2 edges deps)
  then show ?case by (simp add: getDeps_for.psimps)
next
  case (3 d ds edges deps)
  then show ?case by (auto simp: getDeps_for.psimps)
qed

termination getDeps
proof (relation "inv_image (finite_psubset <*lex*> less_than)
    (\<lambda>x. case x of
       Inl (p, edges, deps) \<Rightarrow> (set (map fst edges) - set deps, 0)
     | Inr (ds, edges, deps) \<Rightarrow> (set (map fst edges) - set deps, Suc (length ds)))", goal_cases)
  case 1
  show ?case by (intro wf_inv_image wf_lex_prod wf_finite_psubset wf_less_than)
next
  case (2 p edges deps edge)
  from 2(2) have "p \<in> set (map fst edges)"
    by (metis map_of_eq_None_iff option.distinct(1) set_map)
  with 2(1) show ?case
    by (auto simp: finite_psubset_def)
next
  case (3 d ds edges deps)
  then show ?case by simp
next
  case (4 d ds edges deps)
  from getDeps_dom_mono(1)[OF 4]
  have "set (map fst edges) - set (getDeps d edges deps) \<subseteq> set (map fst edges) - set deps"
    by auto
  then show ?case
    by (auto simp: finite_psubset_def)
qed

text \<open>
  \<open>_getDependencies\<close>: the traversal from an empty set, then \<open>dependencies.delete(path)\<close>.
  The graph is the calculator's current \<open>graph.dependencies\<close>.
\<close>

definition getDependencies :: "DependencyEdges \<Rightarrow> path \<Rightarrow> path list" where
  "getDependencies edges p = removeAll p (getDeps p edges [])"


section \<open>Module ids\<close>

text \<open>
  Modelled from the spec: \<open>createModuleIdFactory\<close> (\<open>../lib/createModuleIdFactory\<close> is
  not under src/).  The first request for a path assigns the next unused integer, counting
  up from a base; every later request for that path returns the same integer.  The state
  of the closure \<open>_getModuleId\<close> is the table and the counter.
\<close>

record allocator =
  fileToIdMap :: "path \<rightharpoonup> nat"
  nextId :: nat

definition createModuleIdFactory :: "nat \<Rightarrow> allocator" where
  "createModuleIdFactory base = \<lparr>fileToIdMap = Map.empty, nextId = base\<rparr>"

definition getModuleId :: "allocator \<Rightarrow> path \<Rightarrow> nat \<times> allocator" where
  "getModuleId a p =
     (case fileToIdMap a p of
        Some i \<Rightarrow> (i, a)
      | None \<Rightarrow> (nextId a, \<lparr>fileToIdMap = (fileToIdMap a)(p \<mapsto> nextId a), nextId = nextId a + 1\<rparr>))"

text \<open>\<open>paths.map(this._getModuleId)\<close> and \<open>paths.forEach(p => this._getModuleId(p))\<close>.\<close>

fun getModuleIds :: "allocator \<Rightarrow> path list \<Rightarrow> nat list \<times> allocator" where
  "getModuleIds a [] = ([], a)"
| "getModuleIds a (p # ps) =
     (let (i, a1) = getModuleId a p; (js, a2) = getModuleIds a1 ps in (i # js, a2))"

section \<open>Configuration and collaborators\<close>

text \<open>
  The constructor's \<open>options\<close> and \<open>bundleOptions\<close>, with the fields the class reads.
  \<open>sourceMapUrl\<close> is a \<open>?string\<close>.
\<close>

record Options =
  getPolyfills :: "string option \<Rightarrow> path list"
  polyfillModuleNames :: "path list"
  platform :: "string option"
  dev :: bool
  runBeforeMainModule :: "path list"
  entryFile :: path
  sourceMapUrl :: "string option"

record JSTransformerOptions =
  transform_dev :: bool
  transform_minify :: bool

record DeltaResult =
  modified :: "DependencyEdge list"
  deleted :: "path list"
  reset :: bool

record ReadResult =
  read_code :: string
  read_map :: "MetroSourceMapSegmentTuple list"
  read_source :: string

text \<open>
  What one build gets from outside this file is a parameter of the build:
  the delta calculator (\<open>getDelta({reset})\<close>, whose \<open>modified\<close> map is taken as the list of
  its values in enumeration order, \<open>getGraph().dependencies\<close>, \<open>getTransformerOptions()\<close>),
  \<open>getHasteName\<close>, \<open>minifyModule\<close>, the \<open>read\<close> of a polyfill module,
  \<open>defaults.moduleSystem\<close>, \<open>getPreludeCode\<close> and \<open>crypto.randomBytes\<close> (a stream of
  random bytes).  \<open>wrapModule\<close> (\<open>./Serializers/helpers/js\<close>) is given by the paths it
  passes to \<open>createModuleId\<close>, in call order, and by the code it returns for the ids it got.
  \<open>settles_at i\<close> is the time at which the \<open>i\<close>-th promise handed to a \<open>Promise.all\<close>
  settles.
\<close>

record world =
  calc_getDelta :: "bool \<Rightarrow> error + DeltaResult"
  calc_getGraph :: DependencyEdges
  calc_getTransformerOptions :: "error + JSTransformerOptions"
  getHasteName :: "path \<Rightarrow> string"
  wrapModule_ids :: "DependencyEdge \<Rightarrow> path list"
  wrapModule_code :: "DependencyEdge \<Rightarrow> nat list \<Rightarrow> bool \<Rightarrow> string"
  minifyModule :: "path \<Rightarrow> string \<Rightarrow> MetroSourceMapSegmentTuple list
                     \<Rightarrow> error + (string \<times> MetroSourceMapSegmentTuple list)"
  module_read :: "path \<Rightarrow> error + ReadResult"
  moduleSystem :: path
  getPreludeCode :: "bool \<Rightarrow> string"
  randomByte :: "nat \<Rightarrow> 8 word"
  settles_at :: "nat \<Rightarrow> nat"

section \<open>Promise.all\<close>

text \<open>
  The promises settle in the order of their times (ties in list order).  \<open>Promise.all\<close>
  rejects with the first rejection in that order, and otherwise fulfils with the values in
  list order.
\<close>

definition completion_order :: "(nat \<Rightarrow> nat) \<Rightarrow> nat \<Rightarrow> nat list" where
  "completion_order t n = sort_key t [0..<n]"

definition first_rejection :: "nat list \<Rightarrow> (error + 'a) list \<Rightarrow> error option" where
  "first_rejection order rs =
     (case filter isl (map (\<lambda>i. rs ! i) order) of [] \<Rightarrow> None | r # _ \<Rightarrow> Some (projl r))"

definition Promise_all :: "(nat \<Rightarrow> nat) \<Rightarrow> (error + 'a) list \<Rightarrow> error + 'a list" where
  "Promise_all t rs =
     (case first_rejection (completion_order t (length rs)) rs of
        Some e \<Rightarrow> Inl e
      | None \<Rightarrow> Inr (map projr rs))"

section \<open>Building delta entries\<close>

text \<open>
  \<open>_transformModule\<close> up to its \<open>await\<close>: the haste name and \<open>wrapModule\<close>, which asks for
  ids.  This part runs when the method is called.
\<close>

definition transformModule_begin ::
  "world \<Rightarrow> JSTransformerOptions \<Rightarrow> allocator \<Rightarrow> DependencyEdge \<Rightarrow> (string \<times> string) \<times> allocator"
where
  "transformModule_begin w transformOptions a edge =
     (let name = getHasteName w (edge_path edge);
          (ids, a1) = getModuleIds a (wrapModule_ids w edge);
          wrappedCode = wrapModule_code w edge ids (transform_dev transformOptions)
      in ((name, wrappedCode), a1))"

text \<open>\<open>_transformModule\<close> from \<open>const id = this._getModuleId(edge.path)\<close> on.\<close>

definition transformModule_end ::
  "allocator \<Rightarrow> DependencyEdge \<Rightarrow> string \<Rightarrow> string \<times> MetroSourceMapSegmentTuple list
     \<Rightarrow> (nat \<times> DeltaEntry option) \<times> allocator"
where
  "transformModule_end a edge name cm =
     (let (i, a1) = getModuleId a (edge_path edge)
      in ((i, Some \<lparr>entry_code = fst cm, entry_id = i, entry_map = snd cm, entry_name = name,
                    entry_path = edge_path edge,
                    entry_source = output_source (edge_output edge),
                    entry_type = output_type (edge_output edge)\<rparr>), a1))"

text \<open>
  Without \<open>minify\<close> the method has no \<open>await\<close> on its way: \<open>modules.map\<close> runs each call to
  its end before the next one starts.
\<close>

fun transformModules_sync ::
  "world \<Rightarrow> JSTransformerOptions \<Rightarrow> allocator \<Rightarrow> DependencyEdge list
     \<Rightarrow> (nat \<times> DeltaEntry option) list \<times> allocator"
where
  "transformModules_sync w transformOptions a [] = ([], a)"
| "transformModules_sync w transformOptions a (edge # edges) =
     (let ((name, wrappedCode), a1) = transformModule_begin w transformOptions a edge;
          (pair, a2) = transformModule_end a1 edge name (wrappedCode, output_map (edge_output edge));
          (pairs, a3) = transformModules_sync w transformOptions a2 edges
      in (pair # pairs, a3))"

text \<open>
  With \<open>minify\<close> every call stops at \<open>await this._bundler.minifyModule(...)\<close>:
  \<open>modules.map\<close> runs the first parts in list order, and each second part runs when its
  minification settles.  \<open>Promise.all\<close> stores the value of the \<open>i\<close>-th promise at index
  \<open>i\<close>.  A rejected minification ends its call; the others still run to their end.
\<close>

fun transformModules_begin ::
  "world \<Rightarrow> JSTransformerOptions \<Rightarrow> allocator \<Rightarrow> DependencyEdge list
     \<Rightarrow> (string \<times> string) list \<times> allocator"
where
  "transformModules_begin w transformOptions a [] = ([], a)"
| "transformModules_begin w transformOptions a (edge # edges) =
     (let (nw, a1) = transformModule_begin w transformOptions a edge;
          (nws, a2) = transformModules_begin w transformOptions a1 edges
      in (nw # nws, a2))"

definition transformModules_resume ::
  "DependencyEdge list \<Rightarrow> (string \<times> string) list
     \<Rightarrow> (error + string \<times> MetroSourceMapSegmentTuple list) list \<Rightarrow> nat
     \<Rightarrow> (nat \<times> DeltaEntry option) option list \<times> allocator
     \<Rightarrow> (nat \<times> DeltaEntry option) option list \<times> allocator"
where
  "transformModules_resume modules started minified i = (\<lambda>(values, a).
     case minified ! i of
       Inl e \<Rightarrow> (values, a)
     | Inr cm \<Rightarrow>
         (let (pair, a1) = transformModule_end a (modules ! i) (fst (started ! i)) cm
          in (values[i := Some pair], a1)))"

text \<open>The calls \<open>this._bundler.minifyModule(edge.path, wrappedCode, edge.output.map)\<close>, one for
  each module.\<close>

definition minifyModules ::
  "world \<Rightarrow> DependencyEdge list \<Rightarrow> (string \<times> string) list
     \<Rightarrow> (error + string \<times> MetroSourceMapSegmentTuple list) list"
where
  "minifyModules w modules started =
     map (\<lambda>(edge, (name, wrappedCode)).
            minifyModule w (edge_path edge) wrappedCode (output_map (edge_output edge)))
         (zip modules started)"

definition transformModules ::
  "world \<Rightarrow> JSTransformerOptions \<Rightarrow> allocator \<Rightarrow> DependencyEdge list \<Rightarrow> DependencyEdges
     \<Rightarrow> (error + DeltaEntries) \<times> allocator"
where
  "transformModules w transformOptions a modules dependencyEdges =
     (if transform_minify transformOptions then
        (let (started, a1) = transformModules_begin w transformOptions a modules;
             minified = minifyModules w modules started;
             order = completion_order (settles_at w) (length modules);
             (values, a2) = fold (transformModules_resume modules started minified) order
                              (replicate (length modules) None, a1)
         in case first_rejection order minified of
              Some e \<Rightarrow> (Inl e, a2)
            | None \<Rightarrow> (Inr (Map_new (map the values)), a2))
      else
        (let (pairs, a1) = transformModules_sync w transformOptions a modules
         in (Inr (Map_new pairs), a1)))"

section \<open>The prepend and append segments\<close>

text \<open>
  \<open>_createEdgeFromScript\<close> for the module that \<open>createPolyfill({file, id, dependencies: []})\<close>
  gives: its path is the file name, its \<open>read\<close> is the world's.
\<close>

definition createEdgeFromScript :: "world \<Rightarrow> path \<Rightarrow> error + DependencyEdge" where
  "createEdgeFromScript w file =
     (case module_read w file of
        Inl e \<Rightarrow> Inl e
      | Inr result \<Rightarrow>
          Inr \<lparr>edge_dependencies = [], edge_inverseDependencies = [], edge_path = file,
               edge_output = \<lparr>output_code = read_code result, output_map = read_map result,
                               output_source = read_source result, output_type = Script\<rparr>\<rparr>)"

definition getPrelude :: "Options \<Rightarrow> world \<Rightarrow> nat \<Rightarrow> DeltaEntry" where
  "getPrelude opts w i =
     (let code = getPreludeCode w (dev opts); name = ''__prelude__''
      in \<lparr>entry_code = code, entry_id = i, entry_map = [], entry_name = name,
          entry_path = name, entry_source = code, entry_type = Script\<rparr>)"

definition getPrepend ::
  "Options \<Rightarrow> world \<Rightarrow> JSTransformerOptions \<Rightarrow> allocator \<Rightarrow> DependencyEdges
     \<Rightarrow> (error + DeltaEntries) \<times> allocator"
where
  "getPrepend opts w transformOptions a dependencyEdges =
     (let (preludeId, a1) = getModuleId a ''__prelude__'';
          names = getPolyfills opts (platform opts) @ polyfillModuleNames opts;
          modules = moduleSystem w # names
      in case Promise_all (settles_at w) (map (createEdgeFromScript w) modules) of
           Inl e \<Rightarrow> (Inl e, a1)
         | Inr edges \<Rightarrow>
             (case transformModules w transformOptions a1 edges dependencyEdges of
                (Inl e, a2) \<Rightarrow> (Inl e, a2)
              | (Inr transformedModules, a2) \<Rightarrow>
                  (Inr (Map_new ((preludeId, Some (getPrelude opts w preludeId))
                                 # transformedModules)), a2)))"

text \<open>\<open>String(n)\<close> and \<open>JSON.stringify(n)\<close> of a module id: its decimal digits.\<close>

fun String_of_nat :: "nat \<Rightarrow> string" where
  "String_of_nat n =
     (if n < 10 then [char_of (48 + n)]
      else String_of_nat (n div 10) @ [char_of (48 + n mod 10)])"

declare String_of_nat.simps [simp del]

definition require_entry :: "nat \<Rightarrow> nat \<times> DeltaEntry option" where
  "require_entry moduleId =
     (let code = ''require('' @ String_of_nat moduleId @ '');'';
          name = ''require-'' @ String_of_nat moduleId;
          p = name @ ''.js''
      in (moduleId, Some \<lparr>entry_code = code, entry_id = moduleId, entry_map = [],
                          entry_name = name, entry_path = p, entry_source = code,
                          entry_type = Require\<rparr>))"

definition sourcemap_entry :: "string \<Rightarrow> nat \<Rightarrow> DeltaEntry" where
  "sourcemap_entry url i =
     (let code = ''//# sourceMappingURL='' @ url
      in \<lparr>entry_code = code, entry_id = i, entry_map = [], entry_name = ''sourcemap.js'',
          entry_path = ''/sourcemap.js'', entry_source = code, entry_type = Comment\<rparr>)"

definition getAppend :: "Options \<Rightarrow> allocator \<Rightarrow> DependencyEdges \<Rightarrow> DeltaEntries \<times> allocator" where
  "getAppend opts a dependencyEdges =
     (let (ids, a1) = getModuleIds a
            (filter (\<lambda>p. map_of dependencyEdges p \<noteq> None)
               (runBeforeMainModule opts @ [entryFile opts]));
          append = Map_new (map require_entry ids)
      in case sourceMapUrl opts of
           None \<Rightarrow> (append, a1)
         | Some url \<Rightarrow>
             (if url = [] then (append, a1)
              else (let (i, a2) = getModuleId a1 ''/sourcemap.js''
                    in (Map_set append i (Some (sourcemap_entry url i)), a2))))"


section \<open>The sequence id\<close>

text \<open>\<open>crypto.randomBytes(n)\<close> takes \<open>n\<close> bytes of the random stream; \<open>toString('hex')\<close>
  writes every byte as two lower-case hexadecimal digits.\<close>

definition randomBytes :: "world \<Rightarrow> nat \<Rightarrow> 8 word list" where
  "randomBytes w n = map (randomByte w) [0..<n]"

definition hex_digit :: "nat \<Rightarrow> char" where
  "hex_digit n = ''0123456789abcdef'' ! n"

definition toString_hex :: "8 word list \<Rightarrow> string" where
  "toString_hex bs = concat (map (\<lambda>b. [hex_digit (unat b div 16), hex_digit (unat b mod 16)]) bs)"

section \<open>One build: \<open>_getDelta\<close>\<close>

text \<open>
  The fields of the object that change: the state of \<open>_getModuleId\<close>,
  \<open>_currentBuildPromise\<close> (a promise is named by its number) and \<open>_lastSequenceId\<close>.
\<close>

record DeltaTransformer =
  moduleIds :: allocator
  currentBuildPromise :: "nat option"
  lastSequenceId :: "string option"

text \<open>\<open>deleted.forEach(id => { modifiedDelta.set(this._getModuleId(id), null); })\<close>\<close>

fun deleted_forEach :: "allocator \<Rightarrow> DeltaEntries \<Rightarrow> path list \<Rightarrow> DeltaEntries \<times> allocator" where
  "deleted_forEach a modifiedDelta [] = (modifiedDelta, a)"
| "deleted_forEach a modifiedDelta (p # ps) =
     (let (i, a1) = getModuleId a p in deleted_forEach a1 (Map_set modifiedDelta i None) ps)"

text \<open>
  \<open>_getDelta({reset: resetDelta})\<close>, named \<open>private_getDelta\<close> beside the public
  \<open>getDelta\<close>.  A rejected \<open>await\<close> ends the method with that error; the ids given out
  until then stay given out.  The method is taken as one step, made when its promise
  settles: no other method of the object runs between its awaits unless a second build
  is in flight.
\<close>

definition private_getDelta ::
  "Options \<Rightarrow> world \<Rightarrow> DeltaTransformer \<Rightarrow> bool
     \<Rightarrow> (error + DeltaTransformResponse) \<times> DeltaTransformer"
where
  "private_getDelta opts w this resetDelta =
     (case calc_getDelta w resetDelta of
        Inl e \<Rightarrow> (Inl e, this)
      | Inr d \<Rightarrow>
     (case calc_getTransformerOptions w of
        Inl e \<Rightarrow> (Inl e, this)
      | Inr transformOptions \<Rightarrow>
     (case (if reset d
            then getPrepend opts w transformOptions (moduleIds this) (calc_getGraph w)
            else (Inr [], moduleIds this)) of
        (Inl e, a1) \<Rightarrow> (Inl e, this\<lparr>moduleIds := a1\<rparr>)
      | (Inr prependSources, a1) \<Rightarrow>
     (let modules = modified d;
          a2 = snd (getModuleIds a1 (map edge_path modules))
      in case transformModules w transformOptions a2 modules (calc_getGraph w) of
        (Inl e, a3) \<Rightarrow> (Inl e, this\<lparr>moduleIds := a3\<rparr>)
      | (Inr transformed, a3) \<Rightarrow>
     (let (modifiedDelta, a4) = deleted_forEach a3 transformed (deleted d);
          (appendSources, a5) =
             (if reset d then getAppend opts a4 (calc_getGraph w) else ([], a4));
          sequenceId = toString_hex (randomBytes w 8)
      in (Inr \<lparr>resp_id = sequenceId, resp_pre = prependSources, resp_post = appendSources,
               resp_delta = modifiedDelta, resp_reset = reset d\<rparr>,
          this\<lparr>moduleIds := a5, lastSequenceId := Some sequenceId\<rparr>))))))"

section \<open>Calls of \<open>getDelta\<close> in flight\<close>

text \<open>
  A call of the async method \<open>getDelta\<close> is suspended at its first \<open>await\<close> (on the build
  of an earlier call, holding its local \<open>reset\<close>), suspended at its second \<open>await\<close> (on its
  own build), or finished.  A promise of \<open>_getDelta\<close> is pending, with the \<open>reset\<close> it was
  called with, or settled.
\<close>

datatype call =
    AwaitPrevious bool nat
  | AwaitOwn nat
  | Returned DeltaTransformResponse
  | Threw error

datatype promise = Pending bool | Settled "error + DeltaTransformResponse"

record system =
  this :: DeltaTransformer
  promises :: "promise list"
  calls :: "call list"

definition init :: "nat \<Rightarrow> system" where
  "init base =
     \<lparr>this = \<lparr>moduleIds = createModuleIdFactory base, currentBuildPromise = None,
               lastSequenceId = None\<rparr>,
      promises = [], calls = []\<rparr>"

text \<open>\<open>!!x\<close> for a \<open>?string\<close>: neither undefined nor the empty string.\<close>

definition truthy :: "string option \<Rightarrow> bool" where
  "truthy x = (x \<noteq> None \<and> x \<noteq> Some [])"

text \<open>\<open>this._currentBuildPromise = this._getDelta({reset})\<close>\<close>

definition start_build :: "bool \<Rightarrow> system \<Rightarrow> nat \<times> system" where
  "start_build r s =
     (let p = length (promises s)
      in (p, s\<lparr>promises := promises s @ [Pending r],
               this := (this s)\<lparr>currentBuildPromise := Some p\<rparr>\<rparr>))"

text \<open>
  What a call does when the promise it awaits has settled.  The first \<open>await\<close> stands outside
  the \<open>try\<close>: a rejection leaves the method.  The second stands inside it, and the
  \<open>finally\<close> block sets \<open>_currentBuildPromise\<close> to null.
\<close>

definition after_await_previous :: "bool \<Rightarrow> error + DeltaTransformResponse \<Rightarrow> system \<Rightarrow> call \<times> system" where
  "after_await_previous r outcome s =
     (case outcome of
        Inl e \<Rightarrow> (Threw e, s)
      | Inr _ \<Rightarrow> (let (p, s1) = start_build r s in (AwaitOwn p, s1)))"

definition after_await_own :: "error + DeltaTransformResponse \<Rightarrow> system \<Rightarrow> call \<times> system" where
  "after_await_own outcome s =
     ((case outcome of Inl e \<Rightarrow> Threw e | Inr result \<Rightarrow> Returned result),
      s\<lparr>this := (this s)\<lparr>currentBuildPromise := None\<rparr>\<rparr>)"

text \<open>A call \<open>getDelta(sequenceId)\<close> arrives and runs to its first suspension.\<close>

definition getDelta :: "string option \<Rightarrow> system \<Rightarrow> system" where
  "getDelta sequenceId s =
     (let r = (truthy (lastSequenceId (this s)) \<and> sequenceId \<noteq> lastSequenceId (this s))
      in case currentBuildPromise (this s) of
           None \<Rightarrow> (let (p, s1) = start_build r s in s1\<lparr>calls := calls s1 @ [AwaitOwn p]\<rparr>)
         | Some p \<Rightarrow>
             (if p < length (promises s) then
                (case promises s ! p of
                   Pending _ \<Rightarrow> s\<lparr>calls := calls s @ [AwaitPrevious r p]\<rparr>
                 | Settled outcome \<Rightarrow>
                     (let (c, s1) = after_await_previous r outcome s
                      in s1\<lparr>calls := calls s1 @ [c]\<rparr>))
              else s\<lparr>calls := calls s @ [AwaitPrevious r p]\<rparr>))"

text \<open>
  When promise \<open>p\<close> settles, the calls that await it go on, in the order in which they
  began to wait; the other calls stay as they are.
\<close>

definition resume_call :: "nat \<Rightarrow> error + DeltaTransformResponse \<Rightarrow> call \<Rightarrow> system \<Rightarrow> call \<times> system" where
  "resume_call p outcome c s =
     (case c of
        AwaitPrevious r q \<Rightarrow> if q = p then after_await_previous r outcome s else (c, s)
      | AwaitOwn q \<Rightarrow> if q = p then after_await_own outcome s else (c, s)
      | _ \<Rightarrow> (c, s))"

fun resume_calls :: "nat \<Rightarrow> error + DeltaTransformResponse \<Rightarrow> call list \<Rightarrow> system \<Rightarrow> call list \<times> system" where
  "resume_calls p outcome [] s = ([], s)"
| "resume_calls p outcome (c # cs) s =
     (let (c1, s1) = resume_call p outcome c s;
          (cs1, s2) = resume_calls p outcome cs s1
      in (c1 # cs1, s2))"

text \<open>The build behind promise \<open>p\<close> comes to its end in the world \<open>w\<close>.\<close>

definition settle :: "Options \<Rightarrow> world \<Rightarrow> nat \<Rightarrow> system \<Rightarrow> system" where
  "settle opts w p s =
     (if p < length (promises s) then
        (case promises s ! p of
           Settled _ \<Rightarrow> s
         | Pending r \<Rightarrow>
             (let (outcome, this1) = private_getDelta opts w (this s) r;
                  s1 = s\<lparr>this := this1, promises := (promises s)[p := Settled outcome]\<rparr>;
                  (cs, s2) = resume_calls p outcome (calls s1) s1
              in s2\<lparr>calls := cs\<rparr>))
      else s)"


text \<open>
  What happens to the object: calls of \<open>getDelta\<close> arrive and builds come to their end, in
  any order.  \<open>run\<close> is the state after a list of such events, from a new object whose
  allocator counts from \<open>base\<close>.
\<close>

datatype event = Call "string option" | Settle world nat

fun step :: "Options \<Rightarrow> event \<Rightarrow> system \<Rightarrow> system" where
  "step opts (Call sequenceId) s = getDelta sequenceId s"
| "step opts (Settle w p) s = settle opts w p s"

definition run :: "Options \<Rightarrow> nat \<Rightarrow> event list \<Rightarrow> system" where
  "run opts base evs = fold (step opts) evs (init base)"

section \<open>Reachability in a snapshot\<close>

text \<open>
  The dependency relation of a snapshot: \<open>a\<close> has an edge record whose dependency map has
  the target \<open>b\<close>.  \<open>snapshot_rel\<close> keeps the targets that have an edge record themselves;
  in a closed snapshot, where every dependency target has one, the two are the same.
\<close>
definition edge_rel :: "DependencyEdges \<Rightarrow> (path \<times> path) set" where
  "edge_rel edges =
     {(a, b). \<exists>e. map_of edges a = Some e \<and> b \<in> snd ` set (edge_dependencies e)}"

definition snapshot_rel :: "DependencyEdges \<Rightarrow> (path \<times> path) set" where
  "snapshot_rel edges = {(a, b). (a, b) \<in> edge_rel edges \<and> map_of edges b \<noteq> None}"

definition closed_snapshot :: "DependencyEdges \<Rightarrow> bool" where
  "closed_snapshot edges =
     (\<forall>(a, e) \<in> set edges. \<forall>(n, b) \<in> set (edge_dependencies e). map_of edges b \<noteq> None)"

text \<open>A snapshot with a cycle: \<open>A\<close> and \<open>B\<close> depend on each other, \<open>B\<close> also on \<open>C\<close>.\<close>

definition example_edge :: "path \<Rightarrow> path list \<Rightarrow> DependencyEdge" where
  "example_edge p ds =
     \<lparr>edge_dependencies = map (\<lambda>d. (''./'' @ d, d)) ds, edge_inverseDependencies = [],
      edge_path = p,
      edge_output = \<lparr>output_code = ''code of '' @ p, output_map = [],
                      output_source = ''source of '' @ p, output_type = Module\<rparr>\<rparr>"

definition cyclic_graph :: DependencyEdges where
  "cyclic_graph =
     [(''A'', example_edge ''A'' [''B'']),
      (''B'', example_edge ''B'' [''A'', ''C'']),
      (''C'', example_edge ''C'' [])]"

section \<open>Properties of responses, and an example build\<close>

text \<open>Every entry of a map stands under its own id.\<close>

definition keyed_by_id :: "DeltaEntries \<Rightarrow> bool" where
  "keyed_by_id m = list_all (\<lambda>(k, v). case v of None \<Rightarrow> True | Some e \<Rightarrow> entry_id e = k) m"

text \<open>The values array while the second parts run.\<close>

definition keyed_values :: "(nat \<times> DeltaEntry option) option list \<Rightarrow> bool" where
  "keyed_values vs = (\<forall>x \<in> set vs. \<forall>k v. x = Some (k, v) \<longrightarrow> (\<exists>e. v = Some e \<and> entry_id e = k))"

text \<open>
  An example: the entry \<open>A\<close> depends on \<open>B\<close>; one polyfill; \<open>X\<close> is to run before the main
  module but is not in the graph; the calculator reports \<open>B\<close> and \<open>A\<close> as modified and
  \<open>D\<close> as deleted.  \<open>example_response\<close> is the response of the first build.
\<close>

definition example_graph :: DependencyEdges where
  "example_graph = [(''A'', example_edge ''A'' [''B'']), (''B'', example_edge ''B'' [])]"

definition example_opts :: Options where
  "example_opts =
     \<lparr>getPolyfills = (\<lambda>_. [''polyfill.js'']), polyfillModuleNames = [], platform = None,
      dev = False, runBeforeMainModule = [''B'', ''X''], entryFile = ''A'',
      sourceMapUrl = Some ''bundle.map''\<rparr>"

definition example_world :: "bool \<Rightarrow> bool \<Rightarrow> (nat \<Rightarrow> nat) \<Rightarrow> world" where
  "example_world rs mini t =
     \<lparr>calc_getDelta = (\<lambda>r. Inr \<lparr>modified = [example_edge ''B'' [], example_edge ''A'' [''B'']],
                                    deleted = [''D''], reset = rs\<rparr>),
      calc_getGraph = example_graph,
      calc_getTransformerOptions = Inr \<lparr>transform_dev = False, transform_minify = mini\<rparr>,
      getHasteName = (\<lambda>p. p),
      wrapModule_ids = (\<lambda>e. map snd (edge_dependencies e)),
      wrapModule_code = (\<lambda>e ids d. output_code (edge_output e)),
      minifyModule = (\<lambda>p c m. Inr (c, m)),
      module_read = (\<lambda>p. Inr \<lparr>read_code = ''script'', read_map = [], read_source = ''script''\<rparr>),
      moduleSystem = ''require.js'',
      getPreludeCode = (\<lambda>d. ''prelude''),
      randomByte = (\<lambda>i. of_nat (17 * i)),
      settles_at = t\<rparr>"


definition example_response :: DeltaTransformResponse where
  "example_response =
     \<lparr>resp_id = ''0011223344556677'',
      resp_pre =
        [(0, Some \<lparr>entry_code = ''prelude'', entry_id = 0, entry_map = [],
                    entry_name = ''__prelude__'', entry_path = ''__prelude__'',
                    entry_source = ''prelude'', entry_type = Script\<rparr>),
         (1, Some \<lparr>entry_code = ''script'', entry_id = 1, entry_map = [],
                    entry_name = ''require.js'', entry_path = ''require.js'',
                    entry_source = ''script'', entry_type = Script\<rparr>),
         (2, Some \<lparr>entry_code = ''script'', entry_id = 2, entry_map = [],
                    entry_name = ''polyfill.js'', entry_path = ''polyfill.js'',
                    entry_source = ''script'', entry_type = Script\<rparr>)],
      resp_post =
        [(3, Some \<lparr>entry_code = ''require(3);'', entry_id = 3, entry_map = [],
                    entry_name = ''require-3'', entry_path = ''require-3.js'',
                    entry_source = ''require(3);'', entry_type = Require\<rparr>),
         (4, Some \<lparr>entry_code = ''require(4);'', entry_id = 4, entry_map = [],
                    entry_name = ''require-4'', entry_path = ''require-4.js'',
                    entry_source = ''require(4);'', entry_type = Require\<rparr>),
         (6, Some \<lparr>entry_code = ''//# sourceMappingURL=bundle.map'', entry_id = 6,
                    entry_map = [], entry_name = ''sourcemap.js'',
                    entry_path = ''/sourcemap.js'',
                    entry_source = ''//# sourceMappingURL=bundle.map'',
                    entry_type = Comment\<rparr>)],
      resp_delta =
        [(3, Some \<lparr>entry_code = ''code of B'', entry_id = 3, entry_map = [],
                    entry_name = ''B'', entry_path = ''B'', entry_source = ''source of B'',
                    entry_type = Module\<rparr>),
         (4, Some \<lparr>entry_code = ''code of A'', entry_id = 4, entry_map = [],
                    entry_name = ''A'', entry_path = ''A'', entry_source = ''source of A'',
                    entry_type = Module\<rparr>),
         (5, None)],
      resp_reset = True\<rparr>"

section \<open>Properties of the allocator\<close>

text \<open>
  One allocator state comes from another by requests for ids (\<open>allocs\<close>).  Such a state
  \<open>extends\<close> the earlier one: the ids given stay, and new ids start at the earlier counter.
  \<open>alloc_ok\<close>: the ids given are below the counter and no two paths share one; it holds
  for a fresh allocator and is kept by every request.
\<close>

definition alloc_step :: "allocator \<Rightarrow> allocator \<Rightarrow> bool" where
  "alloc_step a a' = (\<exists>p. a' = snd (getModuleId a p))"

definition allocs :: "allocator \<Rightarrow> allocator \<Rightarrow> bool" where
  "allocs = alloc_step\<^sup>*\<^sup>*"

definition alloc_ok :: "allocator \<Rightarrow> bool" where
  "alloc_ok a = ((\<forall>p i. fileToIdMap a p = Some i \<longrightarrow> i < nextId a)
                 \<and> inj_on (fileToIdMap a) (dom (fileToIdMap a)))"

definition extends :: "allocator \<Rightarrow> allocator \<Rightarrow> bool" where
  "extends a a' =
     ((\<forall>p i. fileToIdMap a p = Some i \<longrightarrow> fileToIdMap a' p = Some i)
      \<and> nextId a \<le> nextId a'
      \<and> (\<forall>p i. fileToIdMap a p = None \<longrightarrow> fileToIdMap a' p = Some i \<longrightarrow> nextId a \<le> i))"



text \<open>A configuration whose entry file \<open>Z\<close> is not in the example graph.\<close>

definition missing_entry_opts :: Options where
  "missing_entry_opts = example_opts\<lparr>entryFile := ''Z'', sourceMapUrl := None\<rparr>"

text \<open>The example world with other random bytes after the first eight.\<close>

definition example_world_other_tail :: world where
  "example_world_other_tail =
     (example_world True True (\<lambda>i. 0))\<lparr>randomByte := (\<lambda>i. if i < 8 then of_nat (17 * i) else 255)\<rparr>"

text \<open>The example world with a calculator whose \<open>getDelta\<close> fails.\<close>

definition example_failing_world :: world where
  "example_failing_world =
     (example_world True True (\<lambda>i. 0))\<lparr>calc_getDelta := (\<lambda>r. Inl (Error ''diff failed''))\<rparr>"



section \<open>Maps, builds and their entries\<close>

lemma private_getDelta_Inr:
  assumes "private_getDelta opts w dt r = (Inr resp, dt')"
  shows "\<exists>d topts pre a1 tm a3 md a4 post a5.
    calc_getDelta w r = Inr d \<and> calc_getTransformerOptions w = Inr topts \<and>
    (if reset d then getPrepend opts w topts (moduleIds dt) (calc_getGraph w)
     else (Inr [], moduleIds dt)) = (Inr pre, a1) \<and>
    transformModules w topts (snd (getModuleIds a1 (map edge_path (modified d)))) (modified d)
       (calc_getGraph w) = (Inr tm, a3) \<and>
    deleted_forEach a3 tm (deleted d) = (md, a4) \<and>
    (if reset d then getAppend opts a4 (calc_getGraph w) else ([], a4)) = (post, a5) \<and>
    resp = \<lparr>resp_id = toString_hex (randomBytes w 8), resp_pre = pre, resp_post = post,
            resp_delta = md, resp_reset = reset d\<rparr> \<and>
    dt' = dt\<lparr>moduleIds := a5, lastSequenceId := Some (toString_hex (randomBytes w 8))\<rparr>"
proof (cases "calc_getDelta w r")
  case (Inl e)
  with assms show ?thesis by (simp add: private_getDelta_def)
next
  case d: (Inr d)
  show ?thesis
  proof (cases "calc_getTransformerOptions w")
    case (Inl e)
    with assms d show ?thesis by (simp add: private_getDelta_def)
  next
    case t: (Inr topts)
    obtain pr a1 where p: "(if reset d then getPrepend opts w topts (moduleIds dt) (calc_getGraph w)
        else (Inr [], moduleIds dt)) = (pr, a1)" by (cases "(if reset d then getPrepend opts w topts (moduleIds dt) (calc_getGraph w)
        else (Inr [], moduleIds dt))") 
    show ?thesis
    proof (cases pr)
      case (Inl e)
      with assms d t p show ?thesis by (simp add: private_getDelta_def)
    next
      case pre: (Inr pre)
      obtain tr a3 where tm: "transformModules w topts (snd (getModuleIds a1 (map edge_path (modified d))))
          (modified d) (calc_getGraph w) = (tr, a3)" by (cases "transformModules w topts (snd (getModuleIds a1 (map edge_path (modified d))))
          (modified d) (calc_getGraph w)")
      show ?thesis
      proof (cases tr)
        case (Inl e)
        with assms d t p pre tm show ?thesis by (simp add: private_getDelta_def Let_def)
      next
        case tmr: (Inr tmm)
        obtain md a4 where dl: "deleted_forEach a3 tmm (deleted d) = (md, a4)"
          by (cases "deleted_forEach a3 tmm (deleted d)")
        obtain post a5 where ap: "(if reset d then getAppend opts a4 (calc_getGraph w) else ([], a4)) = (post, a5)"
          by (cases "(if reset d then getAppend opts a4 (calc_getGraph w) else ([], a4))")
        from assms d t p pre tm tmr dl ap
        have "resp = \<lparr>resp_id = toString_hex (randomBytes w 8), resp_pre = pre, resp_post = post,
            resp_delta = md, resp_reset = reset d\<rparr> \<and>
          dt' = dt\<lparr>moduleIds := a5, lastSequenceId := Some (toString_hex (randomBytes w 8))\<rparr>"
          by (simp add: private_getDelta_def Let_def)
        with d t p pre tm tmr dl ap show ?thesis by blast
      qed
    qed
  qed
qed


lemma private_getDelta_InrE:
  assumes "private_getDelta opts w dt r = (Inr resp, dt')"
  obtains d topts pre a1 tm a3 md a4 post a5 where
    "calc_getDelta w r = Inr d" "calc_getTransformerOptions w = Inr topts"
    "(if reset d then getPrepend opts w topts (moduleIds dt) (calc_getGraph w)
      else (Inr [], moduleIds dt)) = (Inr pre, a1)"
    "transformModules w topts (snd (getModuleIds a1 (map edge_path (modified d)))) (modified d)
       (calc_getGraph w) = (Inr tm, a3)"
    "deleted_forEach a3 tm (deleted d) = (md, a4)"
    "(if reset d then getAppend opts a4 (calc_getGraph w) else ([], a4)) = (post, a5)"
    "resp = \<lparr>resp_id = toString_hex (randomBytes w 8), resp_pre = pre, resp_post = post,
            resp_delta = md, resp_reset = reset d\<rparr>"
    "dt' = dt\<lparr>moduleIds := a5, lastSequenceId := Some (toString_hex (randomBytes w 8))\<rparr>"
  using private_getDelta_Inr[OF assms]
  apply (elim exE conjE)
  apply (rule that; assumption)
  done

lemma Map_set_keys:
  "map fst (Map_set m k v) = (if k \<in> fst ` set m then map fst m else map fst m @ [k])"
  by (induction m k v rule: Map_set.induct) auto

lemma Map_set_subset: "set (Map_set m k v) \<subseteq> insert (k, v) (set m)"
  by (induction m k v rule: Map_set.induct) auto

lemma Map_set_not_Nil: "Map_set m k v \<noteq> []"
  by (cases m) (auto split: if_splits)

lemma Map_set_hd: "m \<noteq> [] \<Longrightarrow> fst (hd (Map_set m k v)) = fst (hd m)"
  by (cases m) (auto split: if_splits)

lemma Map_fold_subset:
  "set (fold (\<lambda>(k, v) m. Map_set m k v) pairs m0) \<subseteq> set m0 \<union> set pairs"
proof (induction pairs arbitrary: m0)
  case Nil
  then show ?case by simp
next
  case (Cons kv pairs)
  obtain k v where kv: "kv = (k, v)" by (cases kv)
  from Cons[of "Map_set m0 k v"] Map_set_subset[of m0 k v] show ?case
    unfolding kv by auto
qed

lemma Map_fold_hd:
  "m0 \<noteq> [] \<Longrightarrow> fold (\<lambda>(k, v) m. Map_set m k v) pairs m0 \<noteq> []
     \<and> fst (hd (fold (\<lambda>(k, v) m. Map_set m k v) pairs m0)) = fst (hd m0)"
proof (induction pairs arbitrary: m0)
  case Nil
  then show ?case by simp
next
  case (Cons kv pairs)
  obtain k v where kv: "kv = (k, v)" by (cases kv)
  from Cons.IH[of "Map_set m0 k v"] Cons.prems show ?case
    unfolding kv by (simp add: Map_set_not_Nil Map_set_hd)
qed

lemma Map_new_subset: "set (Map_new pairs) \<subseteq> set pairs"
  using Map_fold_subset[of pairs "[]"] by (simp add: Map_new_def)

lemma Map_new_Cons_hd:
  "Map_new ((k, v) # pairs) \<noteq> [] \<and> fst (hd (Map_new ((k, v) # pairs))) = k"
  using Map_fold_hd[of "[(k, v)]" pairs] by (simp add: Map_new_def)

lemma keyed_by_id_iff:
  "keyed_by_id m = (\<forall>(k, v) \<in> set m. \<forall>e. v = Some e \<longrightarrow> entry_id e = k)"
  by (auto simp: keyed_by_id_def list_all_iff split: option.splits)

lemma keyed_subset: "set m \<subseteq> set m' \<Longrightarrow> keyed_by_id m' \<Longrightarrow> keyed_by_id m"
  unfolding keyed_by_id_iff by blast

lemma keyed_Map_new: "keyed_by_id pairs \<Longrightarrow> keyed_by_id (Map_new pairs)"
  using Map_new_subset keyed_subset by blast

lemma keyed_Map_set:
  "keyed_by_id m \<Longrightarrow> (\<And>e. v = Some e \<Longrightarrow> entry_id e = k) \<Longrightarrow> keyed_by_id (Map_set m k v)"
  using Map_set_subset[of m k v] by (fastforce simp: keyed_by_id_iff)

lemma transformModule_end_keyed:
  "transformModule_end a edge name cm = ((k, v), a1) \<Longrightarrow> \<exists>e. v = Some e \<and> entry_id e = k"
  by (auto simp: transformModule_end_def split: prod.splits)

lemma transformModules_sync_keyed:
  "transformModules_sync w topts a edges = (pairs, a1) \<Longrightarrow> keyed_by_id pairs"
proof (induction edges arbitrary: a pairs a1)
  case Nil
  then show ?case by (simp add: keyed_by_id_def)
next
  case (Cons edge edges)
  obtain nw a' where b: "transformModule_begin w topts a edge = (nw, a')"
    by (cases "transformModule_begin w topts a edge")
  obtain name wrapped where nw: "nw = (name, wrapped)" by (cases nw)
  obtain k v a'' where e: "transformModule_end a' edge name (wrapped, output_map (edge_output edge)) = ((k, v), a'')"
    by (metis surj_pair)
  obtain rest a3 where r: "transformModules_sync w topts a'' edges = (rest, a3)"
    by (cases "transformModules_sync w topts a'' edges")
  from Cons.prems b nw e r have p: "pairs = (k, v) # rest" by simp
  from transformModule_end_keyed[OF e] Cons.IH[OF r] show ?case
    unfolding p by (auto simp: keyed_by_id_def)
qed

lemma resume_keyed:
  "keyed_values (fst va) \<Longrightarrow> keyed_values (fst (transformModules_resume modules started minified i va))"
proof -
  obtain vs a where va: "va = (vs, a)" by (cases va)
  assume k: "keyed_values (fst va)"
  show ?thesis
  proof (cases "minified ! i")
    case (Inl e)
    with k va show ?thesis by (simp add: transformModules_resume_def)
  next
    case (Inr cm)
    obtain k' v a1 where e: "transformModule_end a (modules ! i) (fst (started ! i)) cm = ((k', v), a1)"
      by (metis surj_pair)
    from transformModule_end_keyed[OF e] k va
    have "keyed_values (vs[i := Some (k', v)])"
      unfolding keyed_values_def by (auto dest!: set_update_subset_insert[THEN subsetD])
    with Inr e va show ?thesis by (simp add: transformModules_resume_def)
  qed
qed

lemma resume_fold_keyed:
  "keyed_values (fst va) \<Longrightarrow>
   keyed_values (fst (fold (transformModules_resume modules started minified) order va))"
proof (induction order arbitrary: va)
  case Nil
  then show ?case by simp
next
  case (Cons i order)
  from resume_keyed[OF Cons.prems]
  have "keyed_values (fst (transformModules_resume modules started minified i va))" .
  from Cons.IH[OF this] show ?case by simp
qed

lemma resume_fst:
  "\<exists>x. fst (transformModules_resume modules started minified i va)
        = (if isl (minified ! i) then fst va else (fst va)[i := Some x])"
proof -
  obtain vs a where va: "va = (vs, a)" by (cases va)
  show ?thesis
  proof (cases "minified ! i")
    case (Inl e)
    with va show ?thesis by (simp add: transformModules_resume_def)
  next
    case (Inr cm)
    obtain pair a1 where "transformModule_end a (modules ! i) (fst (started ! i)) cm = (pair, a1)"
      by (cases "transformModule_end a (modules ! i) (fst (started ! i)) cm")
    with Inr va have "fst (transformModules_resume modules started minified i va)
        = (if isl (minified ! i) then fst va else (fst va)[i := Some pair])"
      by (simp add: transformModules_resume_def)
    then show ?thesis by (rule exI)
  qed
qed

lemma resume_length:
  "length (fst (transformModules_resume modules started minified i va)) = length (fst va)"
  using resume_fst[of modules started minified i va] by (auto split: if_splits)

lemma resume_fold_length:
  "length (fst (fold (transformModules_resume modules started minified) order va)) = length (fst va)"
  by (induction order arbitrary: va) (simp_all add: resume_length)

lemma resume_keeps_Some:
  "fst va ! j \<noteq> None \<Longrightarrow> j < length (fst va) \<Longrightarrow>
   fst (transformModules_resume modules started minified i va) ! j \<noteq> None"
  using resume_fst[of modules started minified i va]
  by (cases "i = j") (auto split: if_splits)

lemma resume_sets_Some:
  "\<not> isl (minified ! i) \<Longrightarrow> i < length (fst va) \<Longrightarrow>
   fst (transformModules_resume modules started minified i va) ! i \<noteq> None"
  using resume_fst[of modules started minified i va] by auto

lemma resume_fold_keeps_Some:
  "fst va ! j \<noteq> None \<Longrightarrow> j < length (fst va) \<Longrightarrow>
   fst (fold (transformModules_resume modules started minified) order va) ! j \<noteq> None"
proof (induction order arbitrary: va)
  case Nil
  then show ?case by simp
next
  case (Cons i order)
  let ?va = "transformModules_resume modules started minified i va"
  from resume_keeps_Some[OF Cons.prems] have 1: "fst ?va ! j \<noteq> None" .
  from Cons.prems(2) have 2: "j < length (fst ?va)" by (simp add: resume_length)
  from Cons.IH[OF 1 2] show ?case by simp
qed

lemma resume_fold_sets_Some:
  "j \<in> set order \<Longrightarrow> \<not> isl (minified ! j) \<Longrightarrow> j < length (fst va) \<Longrightarrow>
   fst (fold (transformModules_resume modules started minified) order va) ! j \<noteq> None"
proof (induction order arbitrary: va)
  case Nil
  then show ?case by simp
next
  case (Cons i order)
  let ?va = "transformModules_resume modules started minified i va"
  have len: "j < length (fst ?va)" using Cons.prems(3) by (simp add: resume_length)
  show ?case
  proof (cases "j = i")
    case True
    from resume_sets_Some[OF Cons.prems(2,3)] True have "fst ?va ! j \<noteq> None" by simp
    from resume_fold_keeps_Some[OF this len] show ?thesis by simp
  next
    case False
    with Cons.prems(1) have "j \<in> set order" by simp
    from Cons.IH[OF this Cons.prems(2) len] show ?thesis by simp
  qed
qed

lemma first_rejection_None:
  "first_rejection order rs = None \<longleftrightarrow> (\<forall>i \<in> set order. \<not> isl (rs ! i))"
proof -
  have "first_rejection order rs = None \<longleftrightarrow> filter isl (map (\<lambda>i. rs ! i) order) = []"
    by (simp add: first_rejection_def split: list.splits)
  also have "\<dots> \<longleftrightarrow> (\<forall>i \<in> set order. \<not> isl (rs ! i))"
    by (simp add: filter_empty_conv)
  finally show ?thesis .
qed

lemma set_completion_order: "set (completion_order t n) = {0..<n}"
  by (simp add: completion_order_def)

lemma minify_values_keyed:
  assumes "first_rejection (completion_order t n) minified = None"
  shows "keyed_by_id (map the (fst (fold (transformModules_resume modules started minified)
            (completion_order t n) (replicate n None, a))))"
proof -
  let ?vs = "fst (fold (transformModules_resume modules started minified)
            (completion_order t n) (replicate n None, a))"
  have len: "length ?vs = n" by (simp add: resume_fold_length)
  have kv: "keyed_values ?vs"
    by (rule resume_fold_keyed) (simp add: keyed_values_def)
  have some: "?vs ! j \<noteq> None" if "j < n" for j
  proof -
    from that have 1: "j \<in> set (completion_order t n)" by (simp add: set_completion_order)
    with assms have 2: "\<not> isl (minified ! j)" by (simp add: first_rejection_None)
    from that have 3: "j < length (fst (replicate n (None :: (nat \<times> DeltaEntry option) option), a))" by simp
    from resume_fold_sets_Some[OF 1 2 3] show ?thesis .
  qed
  have "\<exists>e. v = Some e \<and> entry_id e = k" if "(k, v) \<in> set (map the ?vs)" for k v
  proof -
    from that obtain x where x: "x \<in> set ?vs" "the x = (k, v)" by auto
    then obtain j where j: "j < n" "?vs ! j = x" using len by (auto simp: in_set_conv_nth)
    with some[of j] have "x \<noteq> None" by simp
    with x(2) have "x = Some (k, v)" by auto
    with kv x(1) show ?thesis unfolding keyed_values_def by blast
  qed
  then show ?thesis unfolding keyed_by_id_iff by blast
qed

lemma transformModules_minify:
  assumes "transform_minify topts" "transformModules_begin w topts a modules = (started, a1)"
  shows "transformModules w topts a modules g =
     (case first_rejection (completion_order (settles_at w) (length modules))
             (minifyModules w modules started) of
        Some e \<Rightarrow> (Inl e, snd (fold (transformModules_resume modules started (minifyModules w modules started))
                     (completion_order (settles_at w) (length modules))
                     (replicate (length modules) None, a1)))
      | None \<Rightarrow> (Inr (Map_new (map the (fst (fold (transformModules_resume modules started (minifyModules w modules started))
                     (completion_order (settles_at w) (length modules))
                     (replicate (length modules) None, a1))))),
                 snd (fold (transformModules_resume modules started (minifyModules w modules started))
                     (completion_order (settles_at w) (length modules))
                     (replicate (length modules) None, a1))))"
  using assms by (simp add: transformModules_def Let_def split_beta cong: option.case_cong)

lemma transformModules_no_minify:
  assumes "\<not> transform_minify topts" "transformModules_sync w topts a modules = (pairs, a1)"
  shows "transformModules w topts a modules g = (Inr (Map_new pairs), a1)"
  using assms by (simp add: transformModules_def)

lemma transformModules_keyed:
  assumes "transformModules w topts a modules g = (Inr tm, a1)"
  shows "keyed_by_id tm"
proof (cases "transform_minify topts")
  case False
  obtain pairs a' where s: "transformModules_sync w topts a modules = (pairs, a')"
    by (cases "transformModules_sync w topts a modules")
  from assms transformModules_no_minify[OF False s] have "tm = Map_new pairs" by simp
  with transformModules_sync_keyed[OF s] show ?thesis by (simp add: keyed_Map_new)
next
  case True
  obtain started a' where b: "transformModules_begin w topts a modules = (started, a')"
    by (cases "transformModules_begin w topts a modules")
  let ?order = "completion_order (settles_at w) (length modules)"
  let ?minified = "minifyModules w modules started"
  let ?va = "fold (transformModules_resume modules started ?minified) ?order
               (replicate (length modules) None, a')"
  from assms transformModules_minify[OF True b, of g]
  have none: "first_rejection ?order ?minified = None" and tm: "tm = Map_new (map the (fst ?va))"
    by (auto split: option.splits)
  from minify_values_keyed[OF none] have "keyed_by_id (map the (fst ?va))" .
  with tm show ?thesis by (simp add: keyed_Map_new)
qed

lemma getPrelude_id: "entry_id (getPrelude opts w i) = i"
  by (simp add: getPrelude_def Let_def)

lemma getPrepend_keyed:
  assumes "getPrepend opts w topts a g = (Inr pre, a1)"
  shows "keyed_by_id pre"
proof -
  obtain i a' where p: "getModuleId a ''__prelude__'' = (i, a')"
    by (cases "getModuleId a ''__prelude__''")
  from assms p obtain edges tm where
    tm: "transformModules w topts a' edges g = (Inr tm, a1)"
    and pre: "pre = Map_new ((i, Some (getPrelude opts w i)) # tm)"
    by (auto simp: getPrepend_def Let_def split: sum.splits prod.splits)
  from transformModules_keyed[OF tm] have "keyed_by_id ((i, Some (getPrelude opts w i)) # tm)"
    by (simp add: keyed_by_id_def getPrelude_id)
  with pre show ?thesis by (simp add: keyed_Map_new)
qed

lemma getAppend_keyed:
  assumes "getAppend opts a g = (post, a1)"
  shows "keyed_by_id post"
proof -
  have k: "keyed_by_id (Map_new (map require_entry ids))" for ids
    by (rule keyed_Map_new) (simp add: keyed_by_id_def list_all_iff require_entry_def Let_def)
  have s: "keyed_by_id (Map_set (Map_new (map require_entry ids)) i (Some (sourcemap_entry url i)))" for ids i url
    by (rule keyed_Map_set[OF k]) (simp add: sourcemap_entry_def Let_def)
  from assms k s show ?thesis
    by (auto simp: getAppend_def Let_def split: prod.splits option.splits if_splits)
qed

lemma deleted_forEach_keyed:
  "deleted_forEach a m ps = (m1, a1) \<Longrightarrow> keyed_by_id m \<Longrightarrow> keyed_by_id m1"
proof (induction ps arbitrary: a m)
  case Nil
  then show ?case by simp
next
  case (Cons p ps)
  obtain i a' where g: "getModuleId a p = (i, a')" by (cases "getModuleId a p")
  with Cons.prems(1) have "deleted_forEach a' (Map_set m i None) ps = (m1, a1)" by simp
  moreover from Cons.prems(2) have "keyed_by_id (Map_set m i None)" by (rule keyed_Map_set) simp
  ultimately show ?case by (rule Cons.IH)
qed


lemma example_build:
  "fst (private_getDelta example_opts (example_world True True (\<lambda>i. 0)) (this (init 0)) False)
     = Inr example_response"
  by code_simp


text \<open>
  C10.  In every response of a build, every entry of \<open>pre\<close>, \<open>post\<close> and \<open>delta\<close> that is
  not a tombstone has as its \<open>id\<close> field the module id under which it stands in the map.
\<close>

theorem response_entries_keyed_by_id:
  assumes "private_getDelta opts w dt r = (Inr resp, dt')"
  shows "keyed_by_id (resp_pre resp) \<and> keyed_by_id (resp_post resp) \<and> keyed_by_id (resp_delta resp)"
proof -
  from assms obtain d topts pre a1 tm a3 md a4 post a5 where
    "calc_getDelta w r = Inr d" "calc_getTransformerOptions w = Inr topts"
    and p: "(if reset d then getPrepend opts w topts (moduleIds dt) (calc_getGraph w)
         else (Inr [], moduleIds dt)) = (Inr pre, a1)"
    and t: "transformModules w topts (snd (getModuleIds a1 (map edge_path (modified d)))) (modified d)
             (calc_getGraph w) = (Inr tm, a3)"
    and dl: "deleted_forEach a3 tm (deleted d) = (md, a4)"
    and ap: "(if reset d then getAppend opts a4 (calc_getGraph w) else ([], a4)) = (post, a5)"
    and resp: "resp = \<lparr>resp_id = toString_hex (randomBytes w 8), resp_pre = pre, resp_post = post,
            resp_delta = md, resp_reset = reset d\<rparr>"
    and "dt' = dt\<lparr>moduleIds := a5, lastSequenceId := Some (toString_hex (randomBytes w 8))\<rparr>"
    by (rule private_getDelta_InrE)
  have 1: "keyed_by_id pre"
  proof (cases "reset d")
    case True
    with p show ?thesis by (simp add: getPrepend_keyed)
  next
    case False
    with p show ?thesis by (simp add: keyed_by_id_def)
  qed
  have 2: "keyed_by_id post"
  proof (cases "reset d")
    case True
    with ap show ?thesis by (simp add: getAppend_keyed)
  next
    case False
    with ap show ?thesis by (auto simp: keyed_by_id_def)
  qed
  from deleted_forEach_keyed[OF dl transformModules_keyed[OF t]] have 3: "keyed_by_id md" .
  from 1 2 3 resp show ?thesis by simp
qed

theorem response_entries_keyed_by_id_witness:
  "fst (private_getDelta example_opts (example_world True True (\<lambda>i. 0)) (this (init 0)) False)
     = Inr example_response
   \<and> keyed_by_id (resp_pre example_response) \<and> keyed_by_id (resp_post example_response)
   \<and> keyed_by_id (resp_delta example_response)"
proof -
  have "private_getDelta example_opts (example_world True True (\<lambda>i. 0)) (this (init 0)) False
     = (Inr example_response,
        snd (private_getDelta example_opts (example_world True True (\<lambda>i. 0)) (this (init 0)) False))"
    using example_build by (simp add: prod_eq_iff)
  from response_entries_keyed_by_id[OF this] example_build show ?thesis by simp
qed


lemma allocs_refl: "allocs a a"
  by (simp add: allocs_def)

lemma allocs_trans: "allocs a b \<Longrightarrow> allocs b c \<Longrightarrow> allocs a c"
  by (simp add: allocs_def)

lemma allocs_getModuleId: "getModuleId a p = (i, a1) \<Longrightarrow> allocs a a1"
  unfolding allocs_def
  by (rule r_into_rtranclp) (auto simp: alloc_step_def intro: exI[of _ p])

lemma getModuleId_Some: "getModuleId a p = (i, a1) \<Longrightarrow> fileToIdMap a1 p = Some i"
  by (auto simp: getModuleId_def split: option.splits)

lemma getModuleId_known: "fileToIdMap a p = Some i \<Longrightarrow> getModuleId a p = (i, a)"
  by (simp add: getModuleId_def)

lemma extends_step: "extends a (snd (getModuleId a p))"
  by (auto simp: extends_def getModuleId_def split: option.splits)

lemma extends_refl: "extends a a"
  by (simp add: extends_def)

lemma extends_trans:
  assumes "extends a b" "extends b c"
  shows "extends a c"
  unfolding extends_def
proof (intro conjI allI impI)
  fix p i assume "fileToIdMap a p = Some i"
  with assms show "fileToIdMap c p = Some i" by (simp add: extends_def)
next
  from assms show "nextId a \<le> nextId c" by (auto simp: extends_def)
next
  fix p i assume n: "fileToIdMap a p = None" and s: "fileToIdMap c p = Some i"
  show "nextId a \<le> i"
  proof (cases "fileToIdMap b p")
    case None
    with s assms(2) have "nextId b \<le> i" by (simp add: extends_def)
    moreover from assms(1) have "nextId a \<le> nextId b" by (simp add: extends_def)
    ultimately show ?thesis by simp
  next
    case (Some j)
    with assms(2) s have "j = i" by (simp add: extends_def)
    with Some n assms(1) show ?thesis by (simp add: extends_def)
  qed
qed

lemma allocs_extends: "allocs a a' \<Longrightarrow> extends a a'"
  unfolding allocs_def
proof (induction rule: rtranclp_induct)
  case base
  show ?case by (rule extends_refl)
next
  case (step b c)
  from step(2) have "extends b c" by (auto simp: alloc_step_def extends_step)
  with step(3) show ?case by (rule extends_trans)
qed

lemma alloc_ok_step: 
  assumes "alloc_ok a"
  shows "alloc_ok (snd (getModuleId a p))"
proof (cases "fileToIdMap a p")
  case (Some i)
  with assms show ?thesis by (simp add: getModuleId_def)
next
  case None
  let ?m = "(fileToIdMap a)(p \<mapsto> nextId a)"
  have 1: "\<forall>q i. ?m q = Some i \<longrightarrow> i < nextId a + 1"
    using assms by (auto simp: alloc_ok_def less_Suc_eq)
  have 2: "inj_on ?m (dom ?m)"
  proof (rule inj_onI)
    fix x y assume x: "x \<in> dom ?m" and y: "y \<in> dom ?m" and e: "?m x = ?m y"
    show "x = y"
    proof (cases "x = p")
      case True
      show ?thesis
      proof (rule ccontr)
        assume "x \<noteq> y"
        with True e have "fileToIdMap a y = Some (nextId a)" by (simp split: if_splits)
        with assms show False by (auto simp: alloc_ok_def)
      qed
    next
      case False
      show ?thesis
      proof (cases "y = p")
        case True
        with False e have "fileToIdMap a x = Some (nextId a)" by (simp split: if_splits)
        with assms show ?thesis by (auto simp: alloc_ok_def)
      next
        case yp: False
        with False x y e have "x \<in> dom (fileToIdMap a)" "y \<in> dom (fileToIdMap a)"
          "fileToIdMap a x = fileToIdMap a y" by auto
        with assms show ?thesis by (auto simp: alloc_ok_def dest: inj_onD)
      qed
    qed
  qed
  from None 1 2 show ?thesis by (simp add: getModuleId_def alloc_ok_def)
qed

lemma allocs_ok: "allocs a a' \<Longrightarrow> alloc_ok a \<Longrightarrow> alloc_ok a'"
  unfolding allocs_def
  by (induction rule: rtranclp_induct) (auto simp: alloc_step_def alloc_ok_step)

lemma alloc_ok_fresh: "alloc_ok (createModuleIdFactory base)"
  by (simp add: alloc_ok_def createModuleIdFactory_def)

lemma alloc_ok_inj:
  "alloc_ok a \<Longrightarrow> fileToIdMap a p = Some i \<Longrightarrow> fileToIdMap a q = Some i \<Longrightarrow> p = q"
  by (auto simp: alloc_ok_def dest!: inj_onD[where x = p and y = q])

lemma allocs_getModuleIds: "getModuleIds a ps = (js, a1) \<Longrightarrow> allocs a a1"
proof (induction ps arbitrary: a js a1)
  case Nil
  then show ?case by (simp add: allocs_refl)
next
  case (Cons p ps)
  obtain i a' where g: "getModuleId a p = (i, a')" by (cases "getModuleId a p")
  obtain js' a'' where r: "getModuleIds a' ps = (js', a'')" by (cases "getModuleIds a' ps")
  from Cons.prems g r have "a1 = a''" by simp
  with allocs_getModuleId[OF g] Cons.IH[OF r] show ?case by (auto intro: allocs_trans)
qed

lemma allocs_begin: "transformModule_begin w topts a edge = (nw, a1) \<Longrightarrow> allocs a a1"
  by (auto simp: transformModule_begin_def Let_def split: prod.splits dest: allocs_getModuleIds)

lemma allocs_end: "transformModule_end a edge name cm = (pair, a1) \<Longrightarrow> allocs a a1"
  by (auto simp: transformModule_end_def split: prod.splits dest: allocs_getModuleId)

lemma allocs_sync: "transformModules_sync w topts a edges = (pairs, a1) \<Longrightarrow> allocs a a1"
proof (induction edges arbitrary: a pairs a1)
  case Nil
  then show ?case by (simp add: allocs_refl)
next
  case (Cons edge edges)
  obtain nw a' where b: "transformModule_begin w topts a edge = (nw, a')"
    by (cases "transformModule_begin w topts a edge")
  obtain name wrapped where nw: "nw = (name, wrapped)" by (cases nw)
  obtain pair a'' where e: "transformModule_end a' edge name (wrapped, output_map (edge_output edge)) = (pair, a'')"
    by (cases "transformModule_end a' edge name (wrapped, output_map (edge_output edge))")
  obtain rest a3 where r: "transformModules_sync w topts a'' edges = (rest, a3)"
    by (cases "transformModules_sync w topts a'' edges")
  from Cons.prems b nw e r have "a1 = a3" by simp
  with allocs_begin[OF b] allocs_end[OF e] Cons.IH[OF r] show ?case
    by (auto intro: allocs_trans)
qed

lemma allocs_begin_all: "transformModules_begin w topts a edges = (started, a1) \<Longrightarrow> allocs a a1"
proof (induction edges arbitrary: a started a1)
  case Nil
  then show ?case by (simp add: allocs_refl)
next
  case (Cons edge edges)
  obtain nw a' where b: "transformModule_begin w topts a edge = (nw, a')"
    by (cases "transformModule_begin w topts a edge")
  obtain rest a3 where r: "transformModules_begin w topts a' edges = (rest, a3)"
    by (cases "transformModules_begin w topts a' edges")
  from Cons.prems b r have "a1 = a3" by simp
  with allocs_begin[OF b] Cons.IH[OF r] show ?case
    by (auto intro: allocs_trans)
qed

lemma allocs_resume:
  "allocs (snd va) (snd (transformModules_resume modules started minified i va))"
proof -
  obtain vs a where va: "va = (vs, a)" by (cases va)
  show ?thesis
  proof (cases "minified ! i")
    case (Inl e)
    with va show ?thesis by (simp add: transformModules_resume_def allocs_refl)
  next
    case (Inr cm)
    obtain pair a1 where e: "transformModule_end a (modules ! i) (fst (started ! i)) cm = (pair, a1)"
      by (cases "transformModule_end a (modules ! i) (fst (started ! i)) cm")
    with Inr va allocs_end[OF e] show ?thesis by (simp add: transformModules_resume_def)
  qed
qed

lemma allocs_resume_fold:
  "allocs (snd va) (snd (fold (transformModules_resume modules started minified) order va))"
proof (induction order arbitrary: va)
  case Nil
  show ?case by (simp add: allocs_refl)
next
  case (Cons i order)
  from allocs_resume[of va modules started minified i]
    Cons.IH[of "transformModules_resume modules started minified i va"]
  show ?case by (auto intro: allocs_trans)
qed

lemma allocs_transformModules:
  assumes "transformModules w topts a modules g = (res, a1)"
  shows "allocs a a1"
proof (cases "transform_minify topts")
  case False
  obtain pairs a' where s: "transformModules_sync w topts a modules = (pairs, a')"
    by (cases "transformModules_sync w topts a modules")
  from assms transformModules_no_minify[OF False s] allocs_sync[OF s] show ?thesis by simp
next
  case True
  obtain started a' where b: "transformModules_begin w topts a modules = (started, a')"
    by (cases "transformModules_begin w topts a modules")
  let ?va = "fold (transformModules_resume modules started (minifyModules w modules started))
               (completion_order (settles_at w) (length modules))
               (replicate (length modules) None, a')"
  from assms transformModules_minify[OF True b, of g] have "a1 = snd ?va"
    by (auto split: option.splits)
  moreover have "allocs a' (snd ?va)"
    using allocs_resume_fold[of "(replicate (length modules) None, a')"] by simp
  ultimately show ?thesis using allocs_begin_all[OF b] by (auto intro: allocs_trans)
qed

lemma allocs_getPrepend:
  assumes "getPrepend opts w topts a g = (res, a1)"
  shows "allocs (snd (getModuleId a ''__prelude__'')) a1"
proof -
  obtain i a' where p: "getModuleId a ''__prelude__'' = (i, a')"
    by (cases "getModuleId a ''__prelude__''")
  show ?thesis
  proof (cases "Promise_all (settles_at w) (map (createEdgeFromScript w)
          (moduleSystem w # getPolyfills opts (platform opts) @ polyfillModuleNames opts))")
    case (Inl e)
    with assms p show ?thesis by (simp add: getPrepend_def Let_def allocs_refl)
  next
    case (Inr edges)
    obtain tr a2 where t: "transformModules w topts a' edges g = (tr, a2)"
      by (cases "transformModules w topts a' edges g")
    with assms p Inr have "a1 = a2" by (auto simp: getPrepend_def Let_def split: sum.splits)
    with allocs_transformModules[OF t] p show ?thesis by simp
  qed
qed

lemma allocs_getAppend:
  assumes "getAppend opts a g = (post, a1)"
  shows "allocs a a1"
proof -
  obtain ids a' where i: "getModuleIds a (filter (\<lambda>p. map_of g p \<noteq> None)
               (runBeforeMainModule opts @ [entryFile opts])) = (ids, a')"
    by (metis surj_pair)
  obtain j a'' where s: "getModuleId a' ''/sourcemap.js'' = (j, a'')"
    by (cases "getModuleId a' ''/sourcemap.js''")
  from assms i s have "a1 = a' \<or> a1 = a''"
    by (auto simp: getAppend_def Let_def split: option.splits if_splits)
  with allocs_getModuleIds[OF i] allocs_getModuleId[OF s] show ?thesis
    by (auto intro: allocs_trans)
qed

lemma allocs_deleted_forEach: "deleted_forEach a m ps = (m1, a1) \<Longrightarrow> allocs a a1"
proof (induction ps arbitrary: a m)
  case Nil
  then show ?case by (simp add: allocs_refl)
next
  case (Cons p ps)
  obtain i a' where g: "getModuleId a p = (i, a')" by (cases "getModuleId a p")
  with Cons.prems have "deleted_forEach a' (Map_set m i None) ps = (m1, a1)" by simp
  from allocs_getModuleId[OF g] Cons.IH[OF this] show ?case by (rule allocs_trans)
qed

lemma extends_keeps: "allocs a a1 \<Longrightarrow> fileToIdMap a p = Some i \<Longrightarrow> fileToIdMap a1 p = Some i"
  using allocs_extends[of a a1] by (simp add: extends_def)









lemma getPrepend_Inr:
  assumes "getPrepend opts w topts a g = (Inr pre, a1)"
  obtains edges tm where
    "Promise_all (settles_at w) (map (createEdgeFromScript w)
        (moduleSystem w # getPolyfills opts (platform opts) @ polyfillModuleNames opts)) = Inr edges"
    "transformModules w topts (snd (getModuleId a ''__prelude__'')) edges g = (Inr tm, a1)"
    "pre = Map_new ((fst (getModuleId a ''__prelude__''),
                     Some (getPrelude opts w (fst (getModuleId a ''__prelude__'')))) # tm)"
proof -
  let ?a' = "snd (getModuleId a ''__prelude__'')"
  let ?i = "fst (getModuleId a ''__prelude__'')"
  let ?P = "Promise_all (settles_at w) (map (createEdgeFromScript w)
        (moduleSystem w # getPolyfills opts (platform opts) @ polyfillModuleNames opts))"
  show ?thesis
  proof (cases ?P)
    case (Inl e)
    with assms show ?thesis by (simp add: getPrepend_def Let_def split_beta)
  next
    case (Inr edges)
    obtain tr a2 where t: "transformModules w topts ?a' edges g = (tr, a2)"
      by (cases "transformModules w topts ?a' edges g")
    show ?thesis
    proof (cases tr)
      case (Inl e)
      with assms Inr t show ?thesis by (simp add: getPrepend_def Let_def split_beta)
    next
      case tm: (Inr tm)
      with assms Inr t have "a1 = a2" "pre = Map_new ((?i, Some (getPrelude opts w ?i)) # tm)"
        by (simp_all add: getPrepend_def Let_def split_beta)
      with Inr t tm that show ?thesis by blast
    qed
  qed
qed

text \<open>
  C6.  In every prepend segment the first key, in insertion order, is the module id of the
  prelude, whatever polyfills are configured, and that id is the first one requested in
  \<open>_getPrepend\<close>: it is the id that the allocator gives for \<open>__prelude__\<close> in the state in
  which \<open>_getPrepend\<close> is entered, it stays the prelude's, and when the prelude is new to the
  allocator it is the next unused id, below every id that \<open>_getPrepend\<close> gives to a path
  that is new (the module system and the polyfills among them).
\<close>

theorem prelude_first:
  assumes "getPrepend opts w topts a g = (Inr pre, a1)"
  shows "pre \<noteq> [] \<and> fst (hd pre) = fst (getModuleId a ''__prelude__'')
       \<and> fileToIdMap a1 ''__prelude__'' = Some (fst (getModuleId a ''__prelude__''))
       \<and> (fileToIdMap a ''__prelude__'' = None \<longrightarrow>
            fst (getModuleId a ''__prelude__'') = nextId a \<and>
            (\<forall>p i. p \<noteq> ''__prelude__'' \<longrightarrow> fileToIdMap a p = None \<longrightarrow>
                   fileToIdMap a1 p = Some i \<longrightarrow> nextId a < i))"
proof -
  obtain i a' where p: "getModuleId a ''__prelude__'' = (i, a')"
    by (cases "getModuleId a ''__prelude__''")
  from assms obtain edges tm where
    tm: "transformModules w topts (snd (getModuleId a ''__prelude__'')) edges g = (Inr tm, a1)"
    and pre: "pre = Map_new ((fst (getModuleId a ''__prelude__''),
                     Some (getPrelude opts w (fst (getModuleId a ''__prelude__'')))) # tm)"
    by (rule getPrepend_Inr)
  from pre p have 1: "pre \<noteq> [] \<and> fst (hd pre) = i"
    using Map_new_Cons_hd[of i "Some (getPrelude opts w i)" tm] by simp
  from tm p have al: "allocs a' a1" using allocs_transformModules by simp
  from getModuleId_Some[OF p] extends_keeps[OF al] have 2: "fileToIdMap a1 ''__prelude__'' = Some i"
    by simp
  have 3: "i = nextId a \<and> (\<forall>q j. q \<noteq> ''__prelude__'' \<longrightarrow> fileToIdMap a q = None \<longrightarrow>
                   fileToIdMap a1 q = Some j \<longrightarrow> nextId a < j)"
    if n: "fileToIdMap a ''__prelude__'' = None"
  proof -
    from p n have i: "i = nextId a" and a': "a' = \<lparr>fileToIdMap = (fileToIdMap a)(''__prelude__'' \<mapsto> nextId a), nextId = nextId a + 1\<rparr>"
      by (auto simp: getModuleId_def)
    have "nextId a < j" if "q \<noteq> ''__prelude__''" "fileToIdMap a q = None" "fileToIdMap a1 q = Some j" for q j
    proof -
      from that(1,2) a' have "fileToIdMap a' q = None" by simp
      with allocs_extends[OF al] that(3) have "nextId a' \<le> j" by (simp add: extends_def)
      with a' show ?thesis by simp
    qed
    with i show ?thesis by blast
  qed
  from 1 2 3 p show ?thesis by simp
qed




lemma example_prepend:
  "fst (getPrepend example_opts (example_world True True (\<lambda>i. 0))
          \<lparr>transform_dev = False, transform_minify = True\<rparr> (createModuleIdFactory 0) example_graph)
     = Inr (resp_pre example_response)"
  by code_simp

theorem prelude_first_witness:
  "fst (getPrepend example_opts (example_world True True (\<lambda>i. 0))
          \<lparr>transform_dev = False, transform_minify = True\<rparr> (createModuleIdFactory 0) example_graph)
     = Inr (resp_pre example_response)
   \<and> fileToIdMap (createModuleIdFactory 0) ''__prelude__'' = None
   \<and> fst (hd (resp_pre example_response)) = nextId (createModuleIdFactory 0)
   \<and> length (resp_pre example_response) = 3"
proof -
  let ?g = "getPrepend example_opts (example_world True True (\<lambda>i. 0))
          \<lparr>transform_dev = False, transform_minify = True\<rparr> (createModuleIdFactory 0) example_graph"
  have e: "?g = (Inr (resp_pre example_response), snd ?g)"
    using example_prepend by (simp add: prod_eq_iff)
  have n: "fileToIdMap (createModuleIdFactory 0) ''__prelude__'' = None"
    by (simp add: createModuleIdFactory_def)
  from prelude_first[OF e] n have "fst (hd (resp_pre example_response)) = nextId (createModuleIdFactory 0)"
    by simp
  with example_prepend n show ?thesis by (simp add: example_response_def)
qed


lemma Map_set_new_key: "k \<notin> fst ` set m \<Longrightarrow> Map_set m k v = m @ [(k, v)]"
  by (induction m k v rule: Map_set.induct) auto

lemma Map_fold_distinct:
  "distinct (map fst (m0 @ pairs)) \<Longrightarrow> fold (\<lambda>(k, v) m. Map_set m k v) pairs m0 = m0 @ pairs"
proof (induction pairs arbitrary: m0)
  case Nil
  then show ?case by simp
next
  case (Cons kv pairs)
  obtain k v where kv: "kv = (k, v)" by (cases kv)
  from Cons.prems kv have "k \<notin> fst ` set m0" by auto
  then have s: "Map_set m0 k v = m0 @ [(k, v)]" by (rule Map_set_new_key)
  from Cons.prems kv have "distinct (map fst ((m0 @ [(k, v)]) @ pairs))" by simp
  from Cons.IH[OF this] s kv show ?case by simp
qed

lemma Map_new_distinct: "distinct (map fst pairs) \<Longrightarrow> Map_new pairs = pairs"
  using Map_fold_distinct[of "[]" pairs] by (simp add: Map_new_def)

lemma getModuleIds_ids:
  "getModuleIds a ps = (js, a1) \<Longrightarrow> allocs a1 a2 \<Longrightarrow> js = map (\<lambda>p. the (fileToIdMap a2 p)) ps"
proof (induction ps arbitrary: a js a1)
  case Nil
  then show ?case by simp
next
  case (Cons p ps)
  obtain i a' where g: "getModuleId a p = (i, a')" by (cases "getModuleId a p")
  obtain js' a'' where r: "getModuleIds a' ps = (js', a'')" by (cases "getModuleIds a' ps")
  from Cons.prems(1) g r have js: "js = i # js'" and a1: "a1 = a''" by simp_all
  from Cons.prems(2) a1 have al: "allocs a'' a2" by simp
  from allocs_trans[OF allocs_getModuleIds[OF r] al] have "allocs a' a2" .
  from extends_keeps[OF this getModuleId_Some[OF g]] have "fileToIdMap a2 p = Some i" .
  with Cons.IH[OF r al] js show ?case by simp
qed

lemma getModuleIds_dom:
  "getModuleIds a ps = (js, a1) \<Longrightarrow> p \<in> set ps \<Longrightarrow> fileToIdMap a1 p \<noteq> None"
proof (induction ps arbitrary: a js a1)
  case Nil
  then show ?case by simp
next
  case (Cons q ps)
  obtain i a' where g: "getModuleId a q = (i, a')" by (cases "getModuleId a q")
  obtain js' a'' where r: "getModuleIds a' ps = (js', a'')" by (cases "getModuleIds a' ps")
  from Cons.prems(1) g r have a1: "a1 = a''" by simp
  show ?case
  proof (cases "p = q")
    case True
    from extends_keeps[OF allocs_getModuleIds[OF r] getModuleId_Some[OF g]] True a1
    show ?thesis by simp
  next
    case False
    with Cons.prems(2) have "p \<in> set ps" by simp
    from Cons.IH[OF r this] a1 show ?thesis by simp
  qed
qed

lemma ids_distinct:
  assumes "alloc_ok a" "distinct ps" "\<forall>p \<in> set ps. fileToIdMap a p \<noteq> None"
  shows "distinct (map (\<lambda>p. the (fileToIdMap a p)) ps)"
proof -
  have "inj_on (\<lambda>p. the (fileToIdMap a p)) (set ps)"
  proof (rule inj_onI)
    fix x y assume x: "x \<in> set ps" and y: "y \<in> set ps"
      and e: "the (fileToIdMap a x) = the (fileToIdMap a y)"
    from x assms(3) obtain i where i: "fileToIdMap a x = Some i" by blast
    from y assms(3) obtain j where j: "fileToIdMap a y = Some j" by blast
    from e i j have "fileToIdMap a y = Some i" by simp
    from alloc_ok_inj[OF assms(1) i this] show "x = y" .
  qed
  with assms(2) show ?thesis by (simp add: distinct_map)
qed

lemma require_entry_key: "fst (require_entry i) = i"
  by (simp add: require_entry_def Let_def)

text \<open>
  C7, as the code has it.  For a configuration whose run-before-main names and entry file
  are pairwise different and none of them \<open>/sourcemap.js\<close> (and an allocator that gives
  different paths different ids), the append segment holds, in this order: one require
  entry for each run-before-main name that is in the graph snapshot, in configured order,
  the others being skipped without error; then one require entry for the entry file if
  the entry file is in the snapshot (it goes through the same filter as the other names);
  then, if a non-empty source-map URL is configured, one comment entry with the
  \<open>sourceMappingURL\<close> line.
\<close>

theorem append_segment:
  assumes g: "getAppend opts a g = (post, a1)"
    and ok: "alloc_ok a"
    and d: "distinct (runBeforeMainModule opts @ [entryFile opts])"
    and ns: "''/sourcemap.js'' \<notin> set (runBeforeMainModule opts @ [entryFile opts])"
  shows "post =
       map (\<lambda>p. require_entry (the (fileToIdMap a1 p)))
           (filter (\<lambda>p. map_of g p \<noteq> None) (runBeforeMainModule opts))
     @ (if map_of g (entryFile opts) \<noteq> None
        then [require_entry (the (fileToIdMap a1 (entryFile opts)))] else [])
     @ (case sourceMapUrl opts of
          None \<Rightarrow> []
        | Some url \<Rightarrow>
            if url = [] then []
            else [(the (fileToIdMap a1 ''/sourcemap.js''),
                   Some (sourcemap_entry url (the (fileToIdMap a1 ''/sourcemap.js''))))])"
proof -
  let ?names = "filter (\<lambda>p. map_of g p \<noteq> None) (runBeforeMainModule opts @ [entryFile opts])"
  obtain ids a' where i: "getModuleIds a ?names = (ids, a')" by (metis surj_pair)
  obtain j a'' where s: "getModuleId a' ''/sourcemap.js'' = (j, a'')"
    by (cases "getModuleId a' ''/sourcemap.js''")
  have al: "allocs a' a1"
  proof -
    from g i s have "a1 = a' \<or> a1 = a''"
      by (auto simp: getAppend_def Let_def split: option.splits if_splits)
    with allocs_getModuleId[OF s] show ?thesis by (auto simp: allocs_refl)
  qed
  have ok1: "alloc_ok a1"
    using allocs_ok[OF allocs_trans[OF allocs_getModuleIds[OF i] al] ok] .
  have ids: "ids = map (\<lambda>p. the (fileToIdMap a1 p)) ?names"
    using getModuleIds_ids[OF i al] .
  have dn: "distinct ?names" using d by (rule distinct_filter)
  have dom: "\<forall>p \<in> set ?names. fileToIdMap a1 p \<noteq> None"
  proof
    fix p assume "p \<in> set ?names"
    from getModuleIds_dom[OF i this] obtain k where "fileToIdMap a' p = Some k" by auto
    from extends_keeps[OF al this] show "fileToIdMap a1 p \<noteq> None" by simp
  qed
  have di: "distinct ids" unfolding ids using ok1 dn dom by (rule ids_distinct)
  have "map fst (map require_entry ids) = ids"
    by (simp add: comp_def require_entry_key)
  with di have mn: "Map_new (map require_entry ids) = map require_entry ids"
    by (intro Map_new_distinct) simp
  have split: "map require_entry ids =
       map (\<lambda>p. require_entry (the (fileToIdMap a1 p)))
           (filter (\<lambda>p. map_of g p \<noteq> None) (runBeforeMainModule opts))
     @ (if map_of g (entryFile opts) \<noteq> None
        then [require_entry (the (fileToIdMap a1 (entryFile opts)))] else [])"
    unfolding ids by (simp add: comp_def)
  show ?thesis
  proof (cases "sourceMapUrl opts")
    case None
    with g i mn split show ?thesis by (simp add: getAppend_def Let_def)
  next
    case (Some url)
    show ?thesis
    proof (cases "url = []")
      case True
      with Some g i mn split show ?thesis by (simp add: getAppend_def Let_def)
    next
      case False
      with Some g i s have a1: "a1 = a''"
          and post: "post = Map_set (Map_new (map require_entry ids)) j (Some (sourcemap_entry url j))"
        by (simp_all add: getAppend_def Let_def)
      from getModuleId_Some[OF s] a1 have sj: "fileToIdMap a1 ''/sourcemap.js'' = Some j" by simp
      have "j \<notin> set ids"
      proof
        assume "j \<in> set ids"
        with ids obtain p where p: "p \<in> set ?names" "j = the (fileToIdMap a1 p)" by auto
        with dom obtain k where k: "fileToIdMap a1 p = Some k" by auto
        with p(2) have "fileToIdMap a1 p = Some j" by simp
        from alloc_ok_inj[OF ok1 this sj] have "p = ''/sourcemap.js''" .
        moreover from p(1) have "p \<in> set (runBeforeMainModule opts @ [entryFile opts])"
          by (rule filter_is_subset[THEN subsetD])
        ultimately show False using ns by simp
      qed
      then have "j \<notin> fst ` set (map require_entry ids)"
        by (auto simp: require_entry_key)
      from Map_set_new_key[OF this] post mn
      have "post = map require_entry ids @ [(j, Some (sourcemap_entry url j))]" by simp
      with split Some False sj show ?thesis by simp
    qed
  qed
qed

lemma example_append:
  "fst (getAppend example_opts (createModuleIdFactory 0) example_graph)
     = [require_entry 0, require_entry 1,
        (2, Some (sourcemap_entry ''bundle.map'' 2))]"
  by code_simp

theorem append_segment_witness:
  "alloc_ok (createModuleIdFactory 0)
   \<and> distinct (runBeforeMainModule example_opts @ [entryFile example_opts])
   \<and> ''/sourcemap.js'' \<notin> set (runBeforeMainModule example_opts @ [entryFile example_opts])
   \<and> filter (\<lambda>p. map_of example_graph p \<noteq> None) (runBeforeMainModule example_opts) = [''B'']
   \<and> map_of example_graph (entryFile example_opts) \<noteq> None
   \<and> fst (getAppend example_opts (createModuleIdFactory 0) example_graph)
        = [require_entry 0, require_entry 1, (2, Some (sourcemap_entry ''bundle.map'' 2))]"
proof -
  let ?g = "getAppend example_opts (createModuleIdFactory 0) example_graph"
  have e: "?g = (fst ?g, snd ?g)" by simp
  have d: "distinct (runBeforeMainModule example_opts @ [entryFile example_opts])"
    by (simp add: example_opts_def)
  have ns: "''/sourcemap.js'' \<notin> set (runBeforeMainModule example_opts @ [entryFile example_opts])"
    by (simp add: example_opts_def)
  have f: "filter (\<lambda>p. map_of example_graph p \<noteq> None) (runBeforeMainModule example_opts) = [''B'']"
    by (simp add: example_opts_def example_graph_def)
  have m: "map_of example_graph (entryFile example_opts) \<noteq> None"
    by (simp add: example_opts_def example_graph_def)
  from append_segment[OF e alloc_ok_fresh d ns] f m
  have "length (fst ?g) = 3" by (simp add: example_opts_def)
  with example_append alloc_ok_fresh d ns f m show ?thesis by blast
qed

text \<open>
  With the entry file \<open>Z\<close> absent from the snapshot, the segment is the one require entry
  of \<open>B\<close>: there is no require entry for the entry file, which has not even been given an
  id.
\<close>

theorem append_entry_file_counterexample:
  "map_of example_graph (entryFile missing_entry_opts) = None
   \<and> fst (getAppend missing_entry_opts (createModuleIdFactory 0) example_graph) = [require_entry 0]
   \<and> fileToIdMap (snd (getAppend missing_entry_opts (createModuleIdFactory 0) example_graph)) ''B'' = Some 0
   \<and> fileToIdMap (snd (getAppend missing_entry_opts (createModuleIdFactory 0) example_graph)) ''Z'' = None"
  by code_simp

lemma hex_digit_inj: "m < 16 \<Longrightarrow> n < 16 \<Longrightarrow> hex_digit m = hex_digit n \<Longrightarrow> m = n"
proof -
  assume a: "m < 16" "n < 16" "hex_digit m = hex_digit n"
  have d: "distinct ''0123456789abcdef''" by simp
  have l: "length ''0123456789abcdef'' = 16" by simp
  from a l have "m < length ''0123456789abcdef''" "n < length ''0123456789abcdef''" by simp_all
  with d a(3) show ?thesis unfolding hex_digit_def by (simp only: nth_eq_iff_index_eq)
qed

lemma byte_hex_inj:
  fixes b c :: "8 word"
  assumes "hex_digit (unat b div 16) = hex_digit (unat c div 16)"
    and "hex_digit (unat b mod 16) = hex_digit (unat c mod 16)"
  shows "b = c"
proof -
  have lb: "unat b < 256" using unsigned_less[of b, where 'a = nat] by simp
  have lc: "unat c < 256" using unsigned_less[of c, where 'a = nat] by simp
  from lb lc have d: "unat b div 16 < 16" "unat c div 16 < 16" by simp_all
  from hex_digit_inj[OF d assms(1)] have 1: "unat b div 16 = unat c div 16" .
  have m: "unat b mod 16 < 16" "unat c mod 16 < 16" by simp_all
  from hex_digit_inj[OF m assms(2)] have 2: "unat b mod 16 = unat c mod 16" .
  from 1 2 have "unat b = unat c" by (metis div_mult_mod_eq)
  then show ?thesis by (rule word_unat_eq_iff[THEN iffD2])
qed

lemma toString_hex_Cons:
  "toString_hex (b # bs) = hex_digit (unat b div 16) # hex_digit (unat b mod 16) # toString_hex bs"
  by (simp add: toString_hex_def)

lemma toString_hex_Nil: "toString_hex [] = []"
  by (simp add: toString_hex_def)

lemma toString_hex_inj: "toString_hex bs = toString_hex cs \<Longrightarrow> bs = cs"
proof (induction bs arbitrary: cs)
  case Nil
  then show ?case by (cases cs) (simp_all add: toString_hex_Cons toString_hex_Nil)
next
  case (Cons b bs)
  show ?case
  proof (cases cs)
    case Nil
    with Cons.prems show ?thesis by (simp add: toString_hex_Cons toString_hex_Nil)
  next
    case (Cons c cs')
    with Cons.prems have h: "hex_digit (unat b div 16) = hex_digit (unat c div 16)"
        "hex_digit (unat b mod 16) = hex_digit (unat c mod 16)"
        "toString_hex bs = toString_hex cs'"
      by (simp_all add: toString_hex_Cons)
    from byte_hex_inj[OF h(1,2)] Cons.IH[OF h(3)] Cons show ?thesis by simp
  qed
qed

lemma toString_hex_length: "length (toString_hex bs) = 2 * length bs"
  by (induction bs) (simp_all add: toString_hex_Cons toString_hex_Nil)

lemma randomBytes_eq:
  "randomBytes w n = randomBytes w2 n \<longleftrightarrow> (\<forall>i<n. randomByte w i = randomByte w2 i)"
  by (auto simp: randomBytes_def list_eq_iff_nth_eq)

lemma private_getDelta_id:
  assumes "private_getDelta opts w dt r = (Inr resp, dt')"
  shows "resp_id resp = toString_hex (randomBytes w 8) \<and> lastSequenceId dt' = Some (resp_id resp)"
proof -
  from assms obtain d topts pre a1 tm a3 md a4 post a5 where
    "calc_getDelta w r = Inr d" "calc_getTransformerOptions w = Inr topts"
    "(if reset d then getPrepend opts w topts (moduleIds dt) (calc_getGraph w)
         else (Inr [], moduleIds dt)) = (Inr pre, a1)"
    "transformModules w topts (snd (getModuleIds a1 (map edge_path (modified d)))) (modified d)
             (calc_getGraph w) = (Inr tm, a3)"
    "deleted_forEach a3 tm (deleted d) = (md, a4)"
    "(if reset d then getAppend opts a4 (calc_getGraph w) else ([], a4)) = (post, a5)"
    and resp: "resp = \<lparr>resp_id = toString_hex (randomBytes w 8), resp_pre = pre, resp_post = post,
            resp_delta = md, resp_reset = reset d\<rparr>"
    and dt': "dt' = dt\<lparr>moduleIds := a5, lastSequenceId := Some (toString_hex (randomBytes w 8))\<rparr>"
    by (rule private_getDelta_InrE)
  from resp dt' show ?thesis by simp
qed

text \<open>
  C2, as the code has it.  Every successful build mints a sequence id from eight fresh
  random bytes, written as sixteen hexadecimal digits, and stores it as the last sequence
  id.  The ids of two builds are equal exactly when their eight random bytes are: all of
  the 64 random bits count, and nothing else does (no content of the bundle enters the
  id).
\<close>

theorem sequence_id_minted:
  assumes "private_getDelta opts w dt r = (Inr resp, dt')"
  shows "resp_id resp = toString_hex (randomBytes w 8)
     \<and> length (resp_id resp) = 16
     \<and> lastSequenceId dt' = Some (resp_id resp)
     \<and> (\<forall>opts2 w2 dt2 r2 resp2 dt2'.
           private_getDelta opts2 w2 dt2 r2 = (Inr resp2, dt2') \<longrightarrow>
           (resp_id resp2 = resp_id resp \<longleftrightarrow> (\<forall>i<8. randomByte w2 i = randomByte w i)))"
proof -
  from private_getDelta_id[OF assms] have 1: "resp_id resp = toString_hex (randomBytes w 8)"
    and 3: "lastSequenceId dt' = Some (resp_id resp)" by simp_all
  from 1 have 2: "length (resp_id resp) = 16"
    by (simp add: toString_hex_length randomBytes_def)
  have 4: "resp_id resp2 = resp_id resp \<longleftrightarrow> (\<forall>i<8. randomByte w2 i = randomByte w i)"
    if "private_getDelta opts2 w2 dt2 r2 = (Inr resp2, dt2')" for opts2 w2 dt2 r2 resp2 dt2'
  proof -
    from private_getDelta_id[OF that] have "resp_id resp2 = toString_hex (randomBytes w2 8)" by simp
    with 1 have "resp_id resp2 = resp_id resp \<longleftrightarrow> randomBytes w2 8 = randomBytes w 8"
      by (auto dest: toString_hex_inj)
    then show ?thesis by (simp add: randomBytes_eq)
  qed
  from 1 2 3 4 show ?thesis by blast
qed

lemma example_other_tail_build:
  "fst (private_getDelta example_opts example_world_other_tail (this (init 0)) False)
     = Inr example_response"
  by code_simp

theorem sequence_id_minted_witness:
  "fst (private_getDelta example_opts (example_world True True (\<lambda>i. 0)) (this (init 0)) False)
     = Inr example_response
   \<and> fst (private_getDelta example_opts example_world_other_tail (this (init 0)) False)
     = Inr example_response
   \<and> resp_id example_response = ''0011223344556677''
   \<and> randomBytes example_world_other_tail 8 = randomBytes (example_world True True (\<lambda>i. 0)) 8"
proof -
  let ?b = "private_getDelta example_opts (example_world True True (\<lambda>i. 0)) (this (init 0)) False"
  let ?c = "private_getDelta example_opts example_world_other_tail (this (init 0)) False"
  have e: "?b = (Inr example_response, snd ?b)"
    using example_build by (simp add: prod_eq_iff)
  have f: "?c = (Inr example_response, snd ?c)"
    using example_other_tail_build by (simp add: prod_eq_iff)
  from sequence_id_minted[OF e] f
  have "\<forall>i<8. randomByte example_world_other_tail i = randomByte (example_world True True (\<lambda>i. 0)) i"
    by blast
  then have "randomBytes example_world_other_tail 8 = randomBytes (example_world True True (\<lambda>i. 0)) 8"
    by (simp add: randomBytes_eq)
  with example_build example_other_tail_build show ?thesis
    by (simp add: example_response_def)
qed

text \<open>
  Two draws of 128 random bits that differ after the first 64 give the same sequence id,
  and the id has sixteen hexadecimal digits, 64 bits: it cannot carry 128 bits.
\<close>

theorem sequence_id_entropy_counterexample:
  "randomBytes (example_world True True (\<lambda>i. 0)) 16 \<noteq> randomBytes example_world_other_tail 16
   \<and> fst (private_getDelta example_opts (example_world True True (\<lambda>i. 0)) (this (init 0)) False)
       = Inr example_response
   \<and> fst (private_getDelta example_opts example_world_other_tail (this (init 0)) False)
       = Inr example_response
   \<and> 4 * length (resp_id example_response) = 64"
  by code_simp

section \<open>Calls, builds and the gate\<close>




lemma private_getDelta_Inl_lastSequenceId:
  "private_getDelta opts w dt r = (Inl e, dt') \<Longrightarrow> lastSequenceId dt' = lastSequenceId dt"
  by (auto simp: private_getDelta_def Let_def split: sum.splits prod.splits if_splits)

lemma start_build_simps:
  "fst (start_build r s) = length (promises s)"
  "promises (snd (start_build r s)) = promises s @ [Pending r]"
  "calls (snd (start_build r s)) = calls s"
  "lastSequenceId (this (snd (start_build r s))) = lastSequenceId (this s)"
  "moduleIds (this (snd (start_build r s))) = moduleIds (this s)"
  "currentBuildPromise (this (snd (start_build r s))) = Some (length (promises s))"
  by (simp_all add: start_build_def Let_def)

lemma resume_call_this:
  "lastSequenceId (this (snd (resume_call p outcome c s))) = lastSequenceId (this s)"
  "moduleIds (this (snd (resume_call p outcome c s))) = moduleIds (this s)"
  by (cases c; cases outcome;
      simp add: resume_call_def after_await_previous_def after_await_own_def split_beta
        start_build_simps)+

lemma resume_call_promises:
  "\<exists>xs. promises (snd (resume_call p outcome c s)) = promises s @ xs"
  by (cases c; cases outcome;
      simp add: resume_call_def after_await_previous_def after_await_own_def split_beta
        start_build_simps)

lemma resume_calls_this:
  "lastSequenceId (this (snd (resume_calls p outcome cs s))) = lastSequenceId (this s)"
  "moduleIds (this (snd (resume_calls p outcome cs s))) = moduleIds (this s)"
  by (induction cs arbitrary: s) (simp_all add: split_beta resume_call_this)

lemma resume_calls_promises:
  "\<exists>xs. promises (snd (resume_calls p outcome cs s)) = promises s @ xs"
proof (induction cs arbitrary: s)
  case Nil
  then show ?case by simp
next
  case (Cons c cs)
  obtain xs where 1: "promises (snd (resume_call p outcome c s)) = promises s @ xs"
    using resume_call_promises by blast
  obtain ys where 2: "promises (snd (resume_calls p outcome cs (snd (resume_call p outcome c s))))
      = promises (snd (resume_call p outcome c s)) @ ys"
    using Cons.IH by blast
  from 1 2 show ?case by (simp add: split_beta)
qed

lemma resume_calls_length: "length (fst (resume_calls p outcome cs s)) = length cs"
  by (induction cs arbitrary: s) (simp_all add: split_beta)

lemma resume_calls_started:
  "i < length cs \<Longrightarrow> cs ! i = AwaitPrevious r p \<Longrightarrow>
   \<exists>k. fst (resume_calls p (Inr x) cs s) ! i = AwaitOwn k
      \<and> length (promises s) \<le> k
      \<and> k < length (promises (snd (resume_calls p (Inr x) cs s)))
      \<and> promises (snd (resume_calls p (Inr x) cs s)) ! k = Pending r"
proof (induction cs arbitrary: i s)
  case Nil
  then show ?case by simp
next
  case (Cons c cs)
  let ?s1 = "snd (resume_call p (Inr x) c s)"
  let ?s2 = "snd (resume_calls p (Inr x) cs ?s1)"
  obtain xs where xs: "promises ?s1 = promises s @ xs" using resume_call_promises by blast
  obtain ys where ys: "promises ?s2 = promises ?s1 @ ys" using resume_calls_promises by blast
  show ?case
  proof (cases i)
    case 0
    with Cons.prems have c: "c = AwaitPrevious r p" by simp
    then have f: "fst (resume_call p (Inr x) c s) = AwaitOwn (length (promises s))"
      and p1: "promises ?s1 = promises s @ [Pending r]"
      by (simp_all add: resume_call_def after_await_previous_def split_beta start_build_simps)
    from p1 ys have "promises ?s2 ! length (promises s) = Pending r"
      "length (promises s) < length (promises ?s2)"
      by (simp_all add: nth_append)
    with 0 f show ?thesis by (simp add: split_beta)
  next
    case (Suc j)
    with Cons.prems have "j < length cs" "cs ! j = AwaitPrevious r p" by simp_all
    from Cons.IH[OF this, of ?s1] obtain k where
      "fst (resume_calls p (Inr x) cs ?s1) ! j = AwaitOwn k" "length (promises ?s1) \<le> k"
      "k < length (promises ?s2)" "promises ?s2 ! k = Pending r" by blast
    with Suc xs show ?thesis by (auto simp: split_beta)
  qed
qed

lemma settle_pending:
  assumes "p < length (promises s)" "promises s ! p = Pending r"
    "private_getDelta opts w (this s) r = (outcome, dt')"
  shows "settle opts w p s =
     (snd (resume_calls p outcome (calls s)
             (s\<lparr>this := dt', promises := (promises s)[p := Settled outcome]\<rparr>)))
       \<lparr>calls := fst (resume_calls p outcome (calls s)
             (s\<lparr>this := dt', promises := (promises s)[p := Settled outcome]\<rparr>))\<rparr>"
  using assms by (simp add: settle_def Let_def split_beta)

lemma getDelta_idle:
  assumes "currentBuildPromise (this s) = None"
  shows "promises (getDelta S s)
           = promises s @ [Pending (truthy (lastSequenceId (this s)) \<and> S \<noteq> lastSequenceId (this s))]"
    "calls (getDelta S s) = calls s @ [AwaitOwn (length (promises s))]"
  using assms by (simp_all add: getDelta_def Let_def split_beta start_build_simps)

lemma getDelta_busy:
  assumes "currentBuildPromise (this s) = Some p" "p < length (promises s)"
    "promises s ! p = Pending r0"
  shows "promises (getDelta S s) = promises s"
    "calls (getDelta S s)
       = calls s @ [AwaitPrevious (truthy (lastSequenceId (this s)) \<and> S \<noteq> lastSequenceId (this s)) p]"
  using assms by (simp_all add: getDelta_def Let_def)

lemma getDelta_lastSequenceId:
  "lastSequenceId (this (getDelta S s)) = lastSequenceId (this s)"
  by (auto simp: getDelta_def Let_def split_beta start_build_simps after_await_previous_def
      split: option.splits promise.splits sum.splits)

lemma private_getDelta_lastSequenceId:
  "lastSequenceId (snd (private_getDelta opts w dt r)) = lastSequenceId dt
   \<or> (\<exists>sid. lastSequenceId (snd (private_getDelta opts w dt r)) = Some sid \<and> length sid = 16)"
proof (cases "fst (private_getDelta opts w dt r)")
  case (Inl e)
  then have "private_getDelta opts w dt r = (Inl e, snd (private_getDelta opts w dt r))"
    by (simp add: prod_eq_iff)
  from private_getDelta_Inl_lastSequenceId[OF this] show ?thesis by simp
next
  case (Inr resp)
  then have "private_getDelta opts w dt r = (Inr resp, snd (private_getDelta opts w dt r))"
    by (simp add: prod_eq_iff)
  from private_getDelta_id[OF this]
  have "lastSequenceId (snd (private_getDelta opts w dt r)) = Some (toString_hex (randomBytes w 8))"
    by simp
  then show ?thesis by (simp add: toString_hex_length randomBytes_def)
qed

lemma settle_lastSequenceId:
  "lastSequenceId (this (settle opts w p s)) = lastSequenceId (this s)
   \<or> (\<exists>sid. lastSequenceId (this (settle opts w p s)) = Some sid \<and> length sid = 16)"
proof (cases "p < length (promises s)")
  case False
  then show ?thesis by (simp add: settle_def)
next
  case True
  show ?thesis
  proof (cases "promises s ! p")
    case (Settled x)
    with True show ?thesis by (simp add: settle_def)
  next
    case (Pending r)
    obtain outcome dt' where b: "private_getDelta opts w (this s) r = (outcome, dt')"
      by (cases "private_getDelta opts w (this s) r")
    from settle_pending[OF True Pending b]
    have "lastSequenceId (this (settle opts w p s)) = lastSequenceId dt'"
      by (simp add: resume_calls_this)
    with private_getDelta_lastSequenceId[of opts w "this s" r] b show ?thesis by simp
  qed
qed

lemma run_snoc: "run opts base (evs @ [ev]) = step opts ev (run opts base evs)"
  by (simp add: run_def)

lemma run_lastSequenceId:
  "lastSequenceId (this (run opts base evs)) \<noteq> Some []"
proof (induction evs rule: rev_induct)
  case Nil
  then show ?case by (simp add: run_def init_def)
next
  case (snoc ev evs)
  show ?case
  proof (cases ev)
    case (Call S)
    with snoc show ?thesis by (simp add: run_snoc getDelta_lastSequenceId)
  next
    case (Settle w p)
    with snoc settle_lastSequenceId[of opts w p "run opts base evs"] show ?thesis
      by (auto simp: run_snoc)
  qed
qed

lemma run_truthy:
  "truthy (lastSequenceId (this (run opts base evs))) \<longleftrightarrow> lastSequenceId (this (run opts base evs)) \<noteq> None"
  using run_lastSequenceId[of opts base evs] by (simp add: truthy_def)





lemma example_failed_build:
  "fst (private_getDelta example_opts example_failing_world (this (init 0)) False)
     = Inl (Error ''diff failed'')"
  by code_simp


text \<open>
  C1: the code at the failing input.  Two calls, the second while the build of the first is
  in flight; the build of the first fails.  The second call then fails with the error of
  the first build: it never starts a build of its own, and only one promise of
  \<open>_getDelta\<close> has ever been made.
\<close>

theorem second_call_after_failed_build:
  "calls (getDelta None (getDelta None (init 0))) = [AwaitOwn 0, AwaitPrevious False 0]
   \<and> promises (getDelta None (getDelta None (init 0))) = [Pending False]
   \<and> calls (settle example_opts example_failing_world 0 (getDelta None (getDelta None (init 0))))
       = [Threw (Error ''diff failed''), Threw (Error ''diff failed'')]
   \<and> promises (settle example_opts example_failing_world 0 (getDelta None (getDelta None (init 0))))
       = [Settled (Inl (Error ''diff failed''))]"
  by code_simp

lemma getDelta_promises:
  "\<exists>xs. promises (getDelta S s) = promises s @ xs"
  by (auto simp: getDelta_def Let_def split_beta start_build_simps after_await_previous_def
      split: option.splits promise.splits sum.splits)

lemma private_getDelta_lastSequenceId_changed:
  assumes "lastSequenceId (snd (private_getDelta opts w dt r)) \<noteq> lastSequenceId dt"
  shows "\<exists>x. fst (private_getDelta opts w dt r) = Inr x"
proof (cases "fst (private_getDelta opts w dt r)")
  case (Inl e)
  then have "private_getDelta opts w dt r = (Inl e, snd (private_getDelta opts w dt r))"
    by (simp add: prod_eq_iff)
  from private_getDelta_Inl_lastSequenceId[OF this] assms show ?thesis by simp
next
  case (Inr x)
  then show ?thesis by blast
qed

lemma settle_success_kept:
  assumes "Settled (Inr x) \<in> set (promises s)"
  shows "Settled (Inr x) \<in> set (promises (settle opts w p s))"
proof (cases "p < length (promises s)")
  case False
  with assms show ?thesis by (simp add: settle_def)
next
  case True
  show ?thesis
  proof (cases "promises s ! p")
    case (Settled y)
    with True assms show ?thesis by (simp add: settle_def)
  next
    case (Pending r)
    obtain outcome dt' where b: "private_getDelta opts w (this s) r = (outcome, dt')"
      by (cases "private_getDelta opts w (this s) r")
    let ?s1 = "s\<lparr>this := dt', promises := (promises s)[p := Settled outcome]\<rparr>"
    from assms obtain j where j: "j < length (promises s)" "promises s ! j = Settled (Inr x)"
      by (auto simp: in_set_conv_nth)
    with Pending have "j \<noteq> p" by auto
    with j have "promises ?s1 ! j = Settled (Inr x)" "j < length (promises ?s1)" by simp_all
    then have "Settled (Inr x) \<in> set (promises ?s1)" by (metis nth_mem)
    moreover obtain xs where "promises (snd (resume_calls p outcome (calls s) ?s1)) = promises ?s1 @ xs"
      using resume_calls_promises by blast
    ultimately show ?thesis using settle_pending[OF True Pending b] by simp
  qed
qed

lemma settle_lastSequenceId_changed:
  assumes "lastSequenceId (this (settle opts w p s)) \<noteq> lastSequenceId (this s)"
  shows "\<exists>x. Settled (Inr x) \<in> set (promises (settle opts w p s))"
proof (cases "p < length (promises s)")
  case False
  with assms show ?thesis by (simp add: settle_def)
next
  case True
  show ?thesis
  proof (cases "promises s ! p")
    case (Settled y)
    with True assms show ?thesis by (simp add: settle_def)
  next
    case (Pending r)
    obtain outcome dt' where b: "private_getDelta opts w (this s) r = (outcome, dt')"
      by (cases "private_getDelta opts w (this s) r")
    let ?s1 = "s\<lparr>this := dt', promises := (promises s)[p := Settled outcome]\<rparr>"
    from settle_pending[OF True Pending b] assms have "lastSequenceId dt' \<noteq> lastSequenceId (this s)"
      by (simp add: resume_calls_this)
    with private_getDelta_lastSequenceId_changed[of opts w "this s" r] b
    obtain x where x: "outcome = Inr x" by auto
    from True have "promises ?s1 ! p = Settled outcome" "p < length (promises ?s1)" by simp_all
    then have "Settled outcome \<in> set (promises ?s1)" by (metis nth_mem)
    moreover obtain xs where "promises (snd (resume_calls p outcome (calls s) ?s1)) = promises ?s1 @ xs"
      using resume_calls_promises by blast
    ultimately show ?thesis using settle_pending[OF True Pending b] x by auto
  qed
qed

lemma run_no_success:
  "lastSequenceId (this (run opts base evs)) \<noteq> None \<Longrightarrow>
   \<exists>x. Settled (Inr x) \<in> set (promises (run opts base evs))"
proof (induction evs rule: rev_induct)
  case Nil
  then show ?case by (simp add: run_def init_def)
next
  case (snoc ev evs)
  let ?s = "run opts base evs"
  show ?case
  proof (cases ev)
    case (Call S)
    with snoc.prems have "lastSequenceId (this ?s) \<noteq> None"
      by (simp add: run_snoc getDelta_lastSequenceId)
    from snoc.IH[OF this] obtain x where "Settled (Inr x) \<in> set (promises ?s)" by blast
    moreover obtain xs where "promises (getDelta S ?s) = promises ?s @ xs"
      using getDelta_promises by blast
    ultimately show ?thesis using Call by (auto simp: run_snoc)
  next
    case (Settle w p)
    show ?thesis
    proof (cases "lastSequenceId (this (settle opts w p ?s)) = lastSequenceId (this ?s)")
      case True
      with snoc.prems Settle have "lastSequenceId (this ?s) \<noteq> None" by (simp add: run_snoc)
      from snoc.IH[OF this] obtain x where "Settled (Inr x) \<in> set (promises ?s)" by blast
      from settle_success_kept[OF this] Settle show ?thesis by (auto simp: run_snoc)
    next
      case False
      from settle_lastSequenceId_changed[OF this] Settle show ?thesis by (simp add: run_snoc)
    qed
  qed
qed

text \<open>
  C4.  For a call \<open>getDelta(S)\<close> that arrives in any state the object can be in, the reset
  that the call asks of the diff service is true exactly when, at the time of the call, a
  last sequence id exists and \<open>S\<close> differs from it; as long as no build has succeeded
  there is no last sequence id, so the request is false whatever \<open>S\<close> is.  The call starts its build with this request at once when no
  build is in flight; when one is in flight it keeps the request while it waits, and
  starts its build with it after that build has succeeded.  A build with request \<open>r\<close> calls
  the calculator's \<open>getDelta\<close> with \<open>reset = r\<close>, and the \<open>reset\<close> of its response is the
  one the calculator returned.
\<close>

theorem reset_request:
  assumes "s = run opts base evs"
  shows "((\<forall>x. Settled (Inr x) \<notin> set (promises s)) \<longrightarrow> lastSequenceId (this s) = None)
     \<and> (currentBuildPromise (this s) = None \<longrightarrow>
            promises (getDelta S s)
              = promises s @ [Pending (lastSequenceId (this s) \<noteq> None \<and> S \<noteq> lastSequenceId (this s))]
          \<and> calls (getDelta S s) = calls s @ [AwaitOwn (length (promises s))])
     \<and> (\<forall>p r0. currentBuildPromise (this s) = Some p \<longrightarrow> p < length (promises s) \<longrightarrow>
            promises s ! p = Pending r0 \<longrightarrow>
            promises (getDelta S s) = promises s
          \<and> calls (getDelta S s)
              = calls s @ [AwaitPrevious (lastSequenceId (this s) \<noteq> None \<and> S \<noteq> lastSequenceId (this s)) p])
     \<and> (\<forall>s2 w p r0 x dt' i r.
            p < length (promises s2) \<longrightarrow> promises s2 ! p = Pending r0 \<longrightarrow>
            private_getDelta opts w (this s2) r0 = (Inr x, dt') \<longrightarrow>
            i < length (calls s2) \<longrightarrow> calls s2 ! i = AwaitPrevious r p \<longrightarrow>
            (\<exists>k. calls (settle opts w p s2) ! i = AwaitOwn k
                \<and> length (promises s2) \<le> k
                \<and> k < length (promises (settle opts w p s2))
                \<and> promises (settle opts w p s2) ! k = Pending r))
     \<and> (\<forall>w dt r resp dt'.
            private_getDelta opts w dt r = (Inr resp, dt') \<longrightarrow>
            (\<exists>d. calc_getDelta w r = Inr d \<and> resp_reset resp = reset d))"
proof -
  have t: "truthy (lastSequenceId (this s)) \<longleftrightarrow> lastSequenceId (this s) \<noteq> None"
    unfolding assms by (rule run_truthy)
  have 1: "(\<forall>x. Settled (Inr x) \<notin> set (promises s)) \<longrightarrow> lastSequenceId (this s) = None"
    unfolding assms using run_no_success[of opts base evs] by blast
  have 2: "currentBuildPromise (this s) = None \<longrightarrow>
            promises (getDelta S s)
              = promises s @ [Pending (lastSequenceId (this s) \<noteq> None \<and> S \<noteq> lastSequenceId (this s))]
          \<and> calls (getDelta S s) = calls s @ [AwaitOwn (length (promises s))]"
    using getDelta_idle[of s S] t by simp
  have 3: "\<forall>p r0. currentBuildPromise (this s) = Some p \<longrightarrow> p < length (promises s) \<longrightarrow>
            promises s ! p = Pending r0 \<longrightarrow>
            promises (getDelta S s) = promises s
          \<and> calls (getDelta S s)
              = calls s @ [AwaitPrevious (lastSequenceId (this s) \<noteq> None \<and> S \<noteq> lastSequenceId (this s)) p]"
    using getDelta_busy[of s _ _ S] t by simp
  have 4: "\<exists>k. calls (settle opts w p s2) ! i = AwaitOwn k
                \<and> length (promises s2) \<le> k
                \<and> k < length (promises (settle opts w p s2))
                \<and> promises (settle opts w p s2) ! k = Pending r"
    if a: "p < length (promises s2)" "promises s2 ! p = Pending r0"
      "private_getDelta opts w (this s2) r0 = (Inr x, dt')"
      "i < length (calls s2)" "calls s2 ! i = AwaitPrevious r p"
    for s2 w p r0 x dt' i r
  proof -
    let ?s1 = "s2\<lparr>this := dt', promises := (promises s2)[p := Settled (Inr x)]\<rparr>"
    from resume_calls_started[OF a(4,5), of x ?s1] obtain k where
      k: "fst (resume_calls p (Inr x) (calls s2) ?s1) ! i = AwaitOwn k"
        "length (promises ?s1) \<le> k"
        "k < length (promises (snd (resume_calls p (Inr x) (calls s2) ?s1)))"
        "promises (snd (resume_calls p (Inr x) (calls s2) ?s1)) ! k = Pending r"
      by blast
    from settle_pending[OF a(1,2,3)] k show ?thesis by auto
  qed
  have 4: "\<forall>s2 w p r0 x dt' i r.
            p < length (promises s2) \<longrightarrow> promises s2 ! p = Pending r0 \<longrightarrow>
            private_getDelta opts w (this s2) r0 = (Inr x, dt') \<longrightarrow>
            i < length (calls s2) \<longrightarrow> calls s2 ! i = AwaitPrevious r p \<longrightarrow>
            (\<exists>k. calls (settle opts w p s2) ! i = AwaitOwn k
                \<and> length (promises s2) \<le> k
                \<and> k < length (promises (settle opts w p s2))
                \<and> promises (settle opts w p s2) ! k = Pending r)"
    by (intro allI impI) (rule 4)
  have 5: "\<exists>d. calc_getDelta w r = Inr d \<and> resp_reset resp = reset d"
    if "private_getDelta opts w dt r = (Inr resp, dt')" for w dt r resp dt'
  proof -
    from that obtain d topts pre a1 tm a3 md a4 post a5 where
      d: "calc_getDelta w r = Inr d" and "calc_getTransformerOptions w = Inr topts"
      and "(if reset d then getPrepend opts w topts (moduleIds dt) (calc_getGraph w)
           else (Inr [], moduleIds dt)) = (Inr pre, a1)"
      and "transformModules w topts (snd (getModuleIds a1 (map edge_path (modified d)))) (modified d)
               (calc_getGraph w) = (Inr tm, a3)"
      and "deleted_forEach a3 tm (deleted d) = (md, a4)"
      and "(if reset d then getAppend opts a4 (calc_getGraph w) else ([], a4)) = (post, a5)"
      and resp: "resp = \<lparr>resp_id = toString_hex (randomBytes w 8), resp_pre = pre, resp_post = post,
              resp_delta = md, resp_reset = reset d\<rparr>"
      and "dt' = dt\<lparr>moduleIds := a5, lastSequenceId := Some (toString_hex (randomBytes w 8))\<rparr>"
      by (rule private_getDelta_InrE)
    from d resp show ?thesis by simp
  qed
  have 5: "\<forall>w dt r resp dt'.
            private_getDelta opts w dt r = (Inr resp, dt') \<longrightarrow>
            (\<exists>d. calc_getDelta w r = Inr d \<and> resp_reset resp = reset d)"
    by (intro allI impI) (rule 5)
  show ?thesis by (intro conjI 1 2 3 4 5)
qed

lemma example_after_first_build:
  "currentBuildPromise (this (run example_opts 0 [Call None, Settle (example_world True True (\<lambda>i. 0)) 0])) = None
   \<and> lastSequenceId (this (run example_opts 0 [Call None, Settle (example_world True True (\<lambda>i. 0)) 0]))
       = Some ''0011223344556677''
   \<and> length (promises (run example_opts 0 [Call None, Settle (example_world True True (\<lambda>i. 0)) 0])) = 1"
  by code_simp

theorem reset_request_witness:
  "currentBuildPromise (this (run example_opts 0 [Call None, Settle (example_world True True (\<lambda>i. 0)) 0])) = None
   \<and> lastSequenceId (this (run example_opts 0 [Call None, Settle (example_world True True (\<lambda>i. 0)) 0]))
       = Some ''0011223344556677''
   \<and> promises (getDelta (Some ''stale'') (run example_opts 0 [Call None, Settle (example_world True True (\<lambda>i. 0)) 0])) ! 1
       = Pending True
   \<and> promises (getDelta (Some ''0011223344556677'') (run example_opts 0 [Call None, Settle (example_world True True (\<lambda>i. 0)) 0])) ! 1
       = Pending False"
proof -
  let ?s = "run example_opts 0 [Call None, Settle (example_world True True (\<lambda>i. 0)) 0]"
  note e = example_after_first_build
  from reset_request[of ?s example_opts 0 "[Call None, Settle (example_world True True (\<lambda>i. 0)) 0]" "Some ''stale''"] e
  have 1: "promises (getDelta (Some ''stale'') ?s) = promises ?s @ [Pending True]"
    by simp
  from reset_request[of ?s example_opts 0 "[Call None, Settle (example_world True True (\<lambda>i. 0)) 0]" "Some ''0011223344556677''"] e
  have 2: "promises (getDelta (Some ''0011223344556677'') ?s) = promises ?s @ [Pending False]"
    by simp
  from 1 2 e show ?thesis by (simp add: nth_append)
qed

section \<open>Properties of the traversal\<close>

lemma getDeps_mono:
  "set deps \<subseteq> set (getDeps p edges deps)"
  "set deps \<subseteq> set (getDeps_for ds edges deps)"
  by (induction p edges deps and ds edges deps rule: getDeps_getDeps_for.induct)
     (auto split: option.splits)

lemma getDeps_distinct:
  "distinct deps \<Longrightarrow> distinct (getDeps p edges deps)"
  "distinct deps \<Longrightarrow> distinct (getDeps_for ds edges deps)"
  by (induction p edges deps and ds edges deps rule: getDeps_getDeps_for.induct)
     (auto split: option.splits)

lemma getDeps_sound:
  "x \<in> set (getDeps p edges deps) \<Longrightarrow> x \<notin> set deps \<Longrightarrow>
     map_of edges p \<noteq> None \<and> (p, x) \<in> (snapshot_rel edges)\<^sup>*"
  "x \<in> set (getDeps_for ds edges deps) \<Longrightarrow> x \<notin> set deps \<Longrightarrow>
     \<exists>d \<in> set ds. map_of edges d \<noteq> None \<and> (d, x) \<in> (snapshot_rel edges)\<^sup>*"
proof (induction p edges deps and ds edges deps arbitrary: x and x rule: getDeps_getDeps_for.induct)
  case (1 p edges deps)
  show ?case
  proof (cases "map_of edges p")
    case None
    with 1(2,3) show ?thesis by (auto split: if_splits)
  next
    case (Some e)
    from 1(2,3) Some have pd: "p \<notin> set deps"
      by (auto split: if_splits)
    with 1(2) Some have xin: "x \<in> set (getDeps_for (map snd (edge_dependencies e)) edges (deps @ [p]))"
      by simp
    show ?thesis
    proof (cases "x = p")
      case True
      with Some show ?thesis by simp
    next
      case False
      with 1(3) have "x \<notin> set (deps @ [p])" by simp
      from 1(1)[OF pd Some xin this]
      obtain d where d: "d \<in> snd ` set (edge_dependencies e)" "map_of edges d \<noteq> None"
        "(d, x) \<in> (snapshot_rel edges)\<^sup>*" by auto
      from d(1,2) Some have "(p, d) \<in> snapshot_rel edges"
        by (auto simp: snapshot_rel_def edge_rel_def)
      with d(3) Some show ?thesis
        by (auto intro: converse_rtrancl_into_rtrancl)
    qed
  qed
next
  case (2 edges deps)
  then show ?case by simp
next
  case (3 d ds edges deps)
  show ?case
  proof (cases "x \<in> set (getDeps d edges deps)")
    case True
    from 3(1)[OF True 3(4)] show ?thesis by auto
  next
    case False
    from 3(3) have "x \<in> set (getDeps_for ds edges (getDeps d edges deps))" by simp
    from 3(2)[OF this False] show ?thesis by auto
  qed
qed

lemma getDeps_closed:
  "(map_of edges p \<noteq> None \<longrightarrow> p \<in> set (getDeps p edges deps)) \<and>
   (\<forall>x \<in> set (getDeps p edges deps) - set deps.
      \<forall>y. (x, y) \<in> snapshot_rel edges \<longrightarrow> y \<in> set (getDeps p edges deps))"
  "(\<forall>d \<in> set ds. map_of edges d \<noteq> None \<longrightarrow> d \<in> set (getDeps_for ds edges deps)) \<and>
   (\<forall>x \<in> set (getDeps_for ds edges deps) - set deps.
      \<forall>y. (x, y) \<in> snapshot_rel edges \<longrightarrow> y \<in> set (getDeps_for ds edges deps))"
proof (induction p edges deps and ds edges deps rule: getDeps_getDeps_for.induct)
  case (1 p edges deps)
  show ?case
  proof (cases "p \<in> set deps")
    case True
    then show ?thesis by simp
  next
    case pd: False
    show ?thesis
    proof (cases "map_of edges p")
      case None
      with pd show ?thesis by simp
    next
      case (Some e)
      let ?r = "getDeps_for (map snd (edge_dependencies e)) edges (deps @ [p])"
      have r: "getDeps p edges deps = ?r" using pd Some by simp
      note IH = 1[OF pd Some]
      from IH have IH1: "\<forall>d \<in> set (map snd (edge_dependencies e)). map_of edges d \<noteq> None \<longrightarrow> d \<in> set ?r"
        by (rule conjunct1)
      from IH have IH2: "\<forall>x \<in> set ?r - set (deps @ [p]).
          \<forall>y. (x, y) \<in> snapshot_rel edges \<longrightarrow> y \<in> set ?r"
        by (rule conjunct2)
      have pin: "p \<in> set ?r" using getDeps_mono(2)[of "deps @ [p]"] by auto
      have cl: "y \<in> set ?r" if "x \<in> set ?r" "x \<notin> set deps" "(x, y) \<in> snapshot_rel edges" for x y
      proof (cases "x = p")
        case True
        with that(3) Some have "y \<in> set (map snd (edge_dependencies e))" "map_of edges y \<noteq> None"
          by (auto simp: snapshot_rel_def edge_rel_def)
        with IH1 show ?thesis by blast
      next
        case False
        with that(1,2) have "x \<in> set ?r - set (deps @ [p])" by simp
        with IH2 that(3) show ?thesis by blast
      qed
      from pin cl show ?thesis unfolding r by blast
    qed
  qed
next
  case (2 edges deps)
  then show ?case by simp
next
  case (3 d ds edges deps)
  let ?r1 = "getDeps d edges deps"
  let ?r = "getDeps_for ds edges ?r1"
  have sub: "set ?r1 \<subseteq> set ?r" by (rule getDeps_mono(2))
  have a: "\<forall>d' \<in> set (d # ds). map_of edges d' \<noteq> None \<longrightarrow> d' \<in> set ?r"
    using 3 sub by auto
  have b: "y \<in> set ?r" if "x \<in> set ?r" "x \<notin> set deps" "(x, y) \<in> snapshot_rel edges" for x y
  proof (cases "x \<in> set ?r1")
    case True
    with that 3(1) have "y \<in> set ?r1" by blast
    with sub show ?thesis by auto
  next
    case False
    with that 3(2) show ?thesis by blast
  qed
  from a b show ?case by auto
qed

lemma getDeps_reach:
  "set (getDeps p edges []) = (if map_of edges p = None then {} else (snapshot_rel edges)\<^sup>* `` {p})"
proof (cases "map_of edges p")
  case None
  then show ?thesis by simp
next
  case (Some e)
  have "y \<in> set (getDeps p edges [])" if "(p, y) \<in> (snapshot_rel edges)\<^sup>*" for y
    using that
  proof (induction rule: rtrancl_induct)
    case base
    then show ?case using getDeps_closed(1)[of edges p "[]"] Some by simp
  next
    case (step y z)
    then show ?case using getDeps_closed(1)[of edges p "[]"] by auto
  qed
  moreover have "(p, y) \<in> (snapshot_rel edges)\<^sup>*" if "y \<in> set (getDeps p edges [])" for y
    using getDeps_sound(1)[OF that] by simp
  ultimately show ?thesis using Some by auto
qed

lemma snapshot_rel_dom: "(a, b) \<in> (snapshot_rel edges)\<^sup>+ \<Longrightarrow> map_of edges a \<noteq> None"
  by (induction rule: trancl_induct) (auto simp: snapshot_rel_def edge_rel_def)

lemma reach_minus_self:
  "(if map_of edges p = None then {} else (snapshot_rel edges)\<^sup>* `` {p}) - {p}
     = {q. (p, q) \<in> (snapshot_rel edges)\<^sup>+} - {p}"
proof (cases "map_of edges p")
  case None
  then have "\<And>q. (p, q) \<notin> (snapshot_rel edges)\<^sup>+"
    using snapshot_rel_dom by blast
  with None show ?thesis by simp
next
  case (Some e)
  then show ?thesis by (auto simp: rtrancl_eq_or_trancl)
qed

lemma closed_snapshot_rel: "closed_snapshot edges \<Longrightarrow> snapshot_rel edges = edge_rel edges"
  by (fastforce simp: closed_snapshot_def snapshot_rel_def edge_rel_def dest: map_of_SomeD)

text \<open>
  C8.  For every path \<open>p\<close>, \<open>_getDependencies\<close> returns exactly the paths that can be reached
  from \<open>p\<close> in one step or more along the dependency edges of the snapshot, without \<open>p\<close>
  itself, each of them once; a path that is already in the accumulator is not expanded
  again, and the traversal ends on every graph, cyclic or not (\<open>getDeps\<close> is total).
  Reaching a path means reaching its edge record: a dependency target without a record in
  the snapshot is not collected.  In a closed snapshot that is every target.
\<close>

theorem getDependencies_reachable:
  "set (getDependencies edges p) = {q. (p, q) \<in> (snapshot_rel edges)\<^sup>+} - {p}
   \<and> distinct (getDependencies edges p)
   \<and> (closed_snapshot edges \<longrightarrow>
        set (getDependencies edges p) = {q. (p, q) \<in> (edge_rel edges)\<^sup>+} - {p})"
proof -
  have 1: "set (getDependencies edges p) = {q. (p, q) \<in> (snapshot_rel edges)\<^sup>+} - {p}"
    unfolding getDependencies_def by (simp add: getDeps_reach reach_minus_self del: getDeps.simps)
  have 2: "distinct (getDependencies edges p)"
    unfolding getDependencies_def by (simp add: getDeps_distinct(1) distinct_removeAll del: getDeps.simps)
  from 1 2 show ?thesis by (auto simp: closed_snapshot_rel)
qed



theorem getDependencies_reachable_witness:
  "closed_snapshot cyclic_graph
   \<and> getDependencies cyclic_graph ''A'' = [''B'', ''C'']
   \<and> {q. (''A'', q) \<in> (edge_rel cyclic_graph)\<^sup>+} - {''A''} = {''B'', ''C''}"
proof -
  have c: "closed_snapshot cyclic_graph"
    by (simp add: closed_snapshot_def cyclic_graph_def example_edge_def)
  have g: "getDependencies cyclic_graph ''A'' = [''B'', ''C'']"
    by (simp add: getDependencies_def cyclic_graph_def example_edge_def)
  from getDependencies_reachable[of cyclic_graph "''A''"] c
  have "set (getDependencies cyclic_graph ''A'') = {q. (''A'', q) \<in> (edge_rel cyclic_graph)\<^sup>+} - {''A''}"
    by blast
  with g have "{q. (''A'', q) \<in> (edge_rel cyclic_graph)\<^sup>+} - {''A''} = {''B'', ''C''}"
    by simp
  with c g show ?thesis by blast
qed

end
